theory Spec2Isabelle
  imports Main "HOL-Library.Word" "HOL-Library.Signed_Division" "HOL-Library.Multiset"
begin

section \<open>Machine types, build configuration and faults\<close>

text \<open>
  The embedding follows \<^verbatim>\<open>src/hotspot/share/gc/shared/referenceProcessor.cpp\<close>.

  \<^item> \<^verbatim>\<open>jlong\<close> is a 64-bit word, compared as a signed value (\<open><s\<close>).
  \<^item> \<^verbatim>\<open>size_t\<close> values are natural numbers; every \<^verbatim>\<open>size_t\<close> addition and subtraction of
    the source is written with its wrap-around modulo \<open>2 ^ 64\<close>, that is \<open>SIZE_MAX + 1\<close>.
  \<^item> \<^verbatim>\<open>uint\<close> queue counts and queue indices are natural numbers; the one narrowing cast of the
    source, \<^verbatim>\<open>(uint)MIN3(...)\<close>, is written with its reduction modulo \<open>2 ^ 32\<close>.
  \<^item> An \<^verbatim>\<open>oop\<close> is \<open>None\<close> for \<^verbatim>\<open>nullptr\<close> and \<open>Some a\<close> for the object at address \<open>a\<close>.
  \<^item> Every \<^verbatim>\<open>assert\<close>, \<^verbatim>\<open>guarantee\<close>, \<^verbatim>\<open>ShouldNotReachHere\<close>, null dereference, out-of-range
    array access and division by zero of the source is a \<open>fault\<close> value: a function that can
    reach one returns \<open>fault + result\<close>. \<^verbatim>\<open>assert\<close> is compiled only into builds that define
    \<^verbatim>\<open>ASSERT\<close>, and code under \<^verbatim>\<open>#ifndef PRODUCT\<close> only into builds that do not define
    \<^verbatim>\<open>PRODUCT\<close>; both macros are fields of \<open>flags\<close>, next to the VM flags the file reads.
\<close>

type_synonym jlong = "64 word"
type_synonym oop = "nat option"

datatype fault =
    AssertFailed string
  | GuaranteeFailed string
  | NullDereference
  | OutOfBounds
  | DivideByZero
  | ShouldNotReachHere

record flags =
  ASSERT :: bool
  PRODUCT :: bool
  RegisterReferences :: bool
  ParallelRefProcEnabled :: bool
  ParallelRefProcBalancingEnabled :: bool
  ReferencesPerThread :: nat
  UseG1GC :: bool

text \<open>
  \<^verbatim>\<open>MIN2\<close>, \<^verbatim>\<open>MIN3\<close> and \<^verbatim>\<open>MAX2\<close> come from \<^verbatim>\<open>utilities/globalDefinitions.hpp\<close>, which is
  not among the sources; they are the minimum of two and of three values and the maximum of two.
\<close>

definition MIN2 :: "nat \<Rightarrow> nat \<Rightarrow> nat" where
  "MIN2 a b = (if a < b then a else b)"

definition MIN3 :: "nat \<Rightarrow> nat \<Rightarrow> nat \<Rightarrow> nat" where
  "MIN3 a b c = MIN2 (MIN2 a b) c"

definition MAX2 :: "nat \<Rightarrow> nat \<Rightarrow> nat" where
  "MAX2 a b = (if a > b then a else b)"

datatype ReferenceType = REF_NONE | REF_SOFT | REF_WEAK | REF_FINAL | REF_PHANTOM

datatype RefProcPhases = SoftWeakFinalRefsPhase | KeepAliveFinalRefsPhase | PhantomRefsPhase

section \<open>The processor, the heap fields it uses, and the collector's state\<close>

text \<open>
  A \<^verbatim>\<open>DiscoveredList\<close> is a head and a length. The reference processor owns
  \<^verbatim>\<open>_max_num_queues\<close> lists per reference type; the four pointers
  \<^verbatim>\<open>_discoveredSoftRefs\<close> ... \<^verbatim>\<open>_discoveredPhantomRefs\<close> into \<^verbatim>\<open>_discovered_refs\<close> are four
  lists of lists here. The fields \<^verbatim>\<open>referent\<close>, \<^verbatim>\<open>discovered\<close> and \<^verbatim>\<open>next\<close> of
  \<^verbatim>\<open>java.lang.ref.Reference\<close> objects are maps from addresses. The state of the collector that the
  liveness and keep-alive closures read and write is the type parameter \<open>'g\<close>.
\<close>

record DiscoveredList =
  head :: oop
  len :: nat

record 'g heap =
  Reference_referent :: "nat \<Rightarrow> oop"
  Reference_discovered :: "nat \<Rightarrow> oop"
  Reference_next :: "nat \<Rightarrow> oop"
  SoftReference_clock :: jlong
  reference_pending_list :: oop
  gc :: 'g

record 'g vm =
  discovery_is_concurrent :: bool
  discovery_is_mt :: bool
  discovering_refs :: bool
  num_queues :: nat
  max_num_queues :: nat
  next_id :: nat
  discoveredSoftRefs :: "DiscoveredList list"
  discoveredWeakRefs :: "DiscoveredList list"
  discoveredFinalRefs :: "DiscoveredList list"
  discoveredPhantomRefs :: "DiscoveredList list"
  soft_ref_timestamp_clock :: jlong
  heap :: "'g heap"

text \<open>
  The collaborators the processor is given: the closures of the collector, the soft-reference
  policy, the id of the calling worker thread and the processor count of the platform. A
  closure that reads or writes the collector's marking state takes and returns \<open>'g\<close>;
  \<^verbatim>\<open>keep_alive->do_oop(addr)\<close> gets the value of the referent field and returns the value it
  leaves there. \<^verbatim>\<open>_is_alive_non_header\<close> may be \<^verbatim>\<open>nullptr\<close>.
\<close>

record 'g closures =
  is_subject_to_discovery :: "'g \<Rightarrow> nat \<Rightarrow> bool"
  is_alive_non_header :: "('g \<Rightarrow> oop \<Rightarrow> bool) option"
  should_clear_reference :: "nat \<Rightarrow> jlong \<Rightarrow> bool"
  is_alive :: "'g \<Rightarrow> oop \<Rightarrow> bool"
  keep_alive :: "'g \<Rightarrow> oop \<Rightarrow> 'g \<times> oop"
  complete_gc :: "'g \<Rightarrow> 'g"
  worker_id :: nat
  active_processor_count :: int

text \<open>
  Modelled from the spec: \<^verbatim>\<open>DiscoveredList::clear\<close>, \<^verbatim>\<open>is_empty\<close> and \<^verbatim>\<open>add_as_head\<close> are
  declared in \<^verbatim>\<open>referenceProcessor.hpp\<close> and \<^verbatim>\<open>referenceProcessor.inline.hpp\<close>, which are not
  among the sources. The spec: "an empty list has head == null and length == 0"; "set the
  queue's head to the new object and increment length".
\<close>

definition DiscoveredList_clear :: "DiscoveredList \<Rightarrow> DiscoveredList" where
  "DiscoveredList_clear l = l\<lparr>head := None, len := 0\<rparr>"

definition is_empty :: "DiscoveredList \<Rightarrow> bool" where
  "is_empty l = (head l = None)"

definition SIZE_MAX :: nat where
  "SIZE_MAX = 2 ^ 64 - 1"

definition size_t_add :: "nat \<Rightarrow> nat \<Rightarrow> nat" where
  "size_t_add a b = (a + b) mod (SIZE_MAX + 1)"

definition size_t_sub :: "nat \<Rightarrow> nat \<Rightarrow> nat" where
  "size_t_sub a b = (a + (SIZE_MAX + 1) - b mod (SIZE_MAX + 1)) mod (SIZE_MAX + 1)"

definition inc_length :: "nat \<Rightarrow> DiscoveredList \<Rightarrow> DiscoveredList" where
  "inc_length inc l = l\<lparr>len := size_t_add (len l) inc\<rparr>"

definition dec_length :: "nat \<Rightarrow> DiscoveredList \<Rightarrow> DiscoveredList" where
  "dec_length dec l = l\<lparr>len := size_t_sub (len l) dec\<rparr>"

definition add_as_head :: "nat \<Rightarrow> DiscoveredList \<Rightarrow> DiscoveredList" where
  "add_as_head obj l = inc_length 1 (l\<lparr>head := Some obj\<rparr>)"

text \<open>The constructor of \<^verbatim>\<open>ReferenceProcessor\<close>, applied to the machine it is created in.\<close>

definition ReferenceProcessor_ctor :: "nat \<Rightarrow> nat \<Rightarrow> bool \<Rightarrow> 'g vm \<Rightarrow> 'g vm" where
  "ReferenceProcessor_ctor mt_processing_degree mt_discovery_degree concurrent_discovery s =
     (let nq = MAX2 1 mt_processing_degree;
          mq = MAX2 nq mt_discovery_degree;
          empty = replicate mq \<lparr>head = None, len = 0\<rparr>
      in s\<lparr>discovery_is_concurrent := concurrent_discovery,
            discovery_is_mt := (mt_discovery_degree > 1),
            discovering_refs := False,
            num_queues := nq,
            max_num_queues := mq,
            next_id := 0,
            discoveredSoftRefs := empty,
            discoveredWeakRefs := empty,
            discoveredFinalRefs := empty,
            discoveredPhantomRefs := empty\<rparr>)"

section \<open>The soft-reference clock\<close>

definition NANOSECS_PER_MILLISEC :: int where
  "NANOSECS_PER_MILLISEC = 1000000"

text \<open>
  \<^verbatim>\<open>update_soft_ref_master_clock\<close>; the argument is what \<^verbatim>\<open>os::javaTimeNanos()\<close> returns. The
  division of two \<^verbatim>\<open>jlong\<close> values truncates towards zero (\<open>sdiv\<close>). The warning logged under
  \<^verbatim>\<open>NOT_PRODUCT\<close> changes no state.
\<close>

definition update_soft_ref_master_clock :: "jlong \<Rightarrow> 'g vm \<Rightarrow> 'g vm" where
  "update_soft_ref_master_clock javaTimeNanos s =
     (let now = (word_of_int (sint javaTimeNanos sdiv NANOSECS_PER_MILLISEC) :: jlong) in
      if soft_ref_timestamp_clock s <s now
      then s\<lparr>soft_ref_timestamp_clock := now,
             heap := (heap s)\<lparr>SoftReference_clock := now\<rparr>\<rparr>
      else s)"

section \<open>The MT-degree adjuster\<close>

definition set_active_mt_degree :: "flags \<Rightarrow> nat \<Rightarrow> 'g vm \<Rightarrow> fault + 'g vm" where
  "set_active_mt_degree f v s =
     (if ASSERT f \<and> \<not> v \<le> max_num_queues s then Inl (AssertFailed ''Mt degree too high'')
      else Inr (s\<lparr>num_queues := v, next_id := 0\<rparr>))"

definition use_max_threads :: "RefProcPhases \<Rightarrow> bool" where
  "use_max_threads phase = (phase = KeepAliveFinalRefsPhase)"

text \<open>
  \<^verbatim>\<open>ergo_proc_thread_count\<close>; \<open>processor_count\<close> is what
  \<^verbatim>\<open>os::active_processor_count()\<close> returns, an \<^verbatim>\<open>int\<close> that the source casts to \<^verbatim>\<open>size_t\<close>.
\<close>

definition ergo_proc_thread_count ::
  "flags \<Rightarrow> int \<Rightarrow> nat \<Rightarrow> nat \<Rightarrow> RefProcPhases \<Rightarrow> fault + nat" where
  "ergo_proc_thread_count f processor_count ref_count max_threads phase =
     (if ASSERT f \<and> \<not> 0 < max_threads
      then Inl (AssertFailed ''must allow at least one thread'')
      else if use_max_threads phase \<or> ReferencesPerThread f = 0 then Inr max_threads
      else
        let thread_count = size_t_add 1 (ref_count div ReferencesPerThread f)
        in Inr (MIN3 thread_count max_threads (nat (processor_count mod (int SIZE_MAX + 1)))
                  mod 2 ^ 32))"

record RefProcMTDegreeAdjuster =
  saved_num_queues :: nat

definition RefProcMTDegreeAdjuster_ctor ::
  "flags \<Rightarrow> int \<Rightarrow> RefProcPhases \<Rightarrow> nat \<Rightarrow> nat \<Rightarrow> 'g vm
     \<Rightarrow> fault + (RefProcMTDegreeAdjuster \<times> 'g vm)" where
  "RefProcMTDegreeAdjuster_ctor f processor_count phase num_active_workers ref_count s =
     (let a = \<lparr>saved_num_queues = num_queues s\<rparr> in
      case ergo_proc_thread_count f processor_count ref_count num_active_workers phase of
        Inl e \<Rightarrow> Inl e
      | Inr workers \<Rightarrow>
          (case set_active_mt_degree f workers s of
             Inl e \<Rightarrow> Inl e
           | Inr s' \<Rightarrow> Inr (a, s')))"

definition RefProcMTDegreeAdjuster_dtor ::
  "flags \<Rightarrow> RefProcMTDegreeAdjuster \<Rightarrow> 'g vm \<Rightarrow> fault + 'g vm" where
  "RefProcMTDegreeAdjuster_dtor f a s = set_active_mt_degree f (saved_num_queues a) s"

section \<open>Discovery\<close>


definition next_id_round_robin :: "'g vm \<Rightarrow> nat \<times> 'g vm" where
  "next_id_round_robin s =
     (let idx = next_id s;
          n = (if idx + 1 = num_queues s then 0 else idx + 1)
      in (idx, s\<lparr>next_id := n\<rparr>))"

definition processing_is_mt :: "flags \<Rightarrow> 'g vm \<Rightarrow> bool" where
  "processing_is_mt f s = (ParallelRefProcEnabled f \<and> num_queues s > 1)"

definition number_of_subclasses_of_ref :: nat where
  "number_of_subclasses_of_ref = 4"

text \<open>
  The array \<^verbatim>\<open>_discovered_refs\<close> in the order of the four pointers into it, and the lists of one
  reference type. \<^verbatim>\<open>REF_NONE\<close> has no lists: the source reaches \<^verbatim>\<open>ShouldNotReachHere\<close>.
\<close>

definition discovered_refs :: "'g vm \<Rightarrow> DiscoveredList list" where
  "discovered_refs s =
     discoveredSoftRefs s @ discoveredWeakRefs s @ discoveredFinalRefs s @ discoveredPhantomRefs s"

fun lists_of :: "ReferenceType \<Rightarrow> 'g vm \<Rightarrow> fault + DiscoveredList list" where
  "lists_of REF_SOFT s = Inr (discoveredSoftRefs s)"
| "lists_of REF_WEAK s = Inr (discoveredWeakRefs s)"
| "lists_of REF_FINAL s = Inr (discoveredFinalRefs s)"
| "lists_of REF_PHANTOM s = Inr (discoveredPhantomRefs s)"
| "lists_of REF_NONE s = Inl ShouldNotReachHere"

fun set_lists_of :: "ReferenceType \<Rightarrow> DiscoveredList list \<Rightarrow> 'g vm \<Rightarrow> 'g vm" where
  "set_lists_of REF_SOFT ls s = s\<lparr>discoveredSoftRefs := ls\<rparr>"
| "set_lists_of REF_WEAK ls s = s\<lparr>discoveredWeakRefs := ls\<rparr>"
| "set_lists_of REF_FINAL ls s = s\<lparr>discoveredFinalRefs := ls\<rparr>"
| "set_lists_of REF_PHANTOM ls s = s\<lparr>discoveredPhantomRefs := ls\<rparr>"
| "set_lists_of REF_NONE ls s = s"

text \<open>
  \<^verbatim>\<open>verify_no_references_recorded\<close> is compiled under \<^verbatim>\<open>#ifndef PRODUCT\<close>; \<^verbatim>\<open>guarantee\<close> is
  checked in every build that compiles it.
\<close>

definition verify_no_references_recorded :: "flags \<Rightarrow> 'g vm \<Rightarrow> fault + unit" where
  "verify_no_references_recorded f s =
     (if PRODUCT f then Inr ()
      else if discovering_refs s then Inl (GuaranteeFailed ''Discovering refs?'')
      else if list_ex (\<lambda>l. \<not> is_empty l) (discovered_refs s)
      then Inl (GuaranteeFailed ''Found non-empty discovered list'')
      else Inr ())"

definition enable_discovery :: "flags \<Rightarrow> 'g vm \<Rightarrow> fault + 'g vm" where
  "enable_discovery f s =
     (if ASSERT f \<and> discovering_refs s then Inl (AssertFailed ''nested call?'')
      else
        case (if ASSERT f then verify_no_references_recorded f s else Inr ()) of
          Inl e \<Rightarrow> Inl e
        | Inr _ \<Rightarrow> Inr (s\<lparr>discovering_refs := True\<rparr>))"

text \<open>
  \<^verbatim>\<open>get_discovered_list\<close> returns a pointer to one list; here it returns the index of the list
  among those of the reference type, and the state in which the round-robin counter has moved.
\<close>

definition get_discovered_list ::
  "flags \<Rightarrow> 'g closures \<Rightarrow> ReferenceType \<Rightarrow> 'g vm \<Rightarrow> fault + (nat \<times> 'g vm)" where
  "get_discovered_list f c rt s =
     (let (idx, s1) =
            (if discovery_is_mt s then (worker_id c, s)
             else if processing_is_mt f s then next_id_round_robin s
             else (0, s))
      in if ASSERT f \<and> \<not> idx < max_num_queues s1
         then Inl (AssertFailed ''Id is out of bounds'')
         else if rt = REF_NONE then Inl ShouldNotReachHere
         else Inr (idx, s1))"

text \<open>
  The two ways of writing the discovered field of a newly discovered object. The raw and the
  barriered store write the same value; the compare-and-exchange against \<^verbatim>\<open>nullptr\<close> writes only
  when the field is \<^verbatim>\<open>nullptr\<close> and reports what it found.
\<close>

definition oop_atomic_cmpxchg ::
  "nat \<Rightarrow> oop \<Rightarrow> oop \<Rightarrow> 'g heap \<Rightarrow> oop \<times> 'g heap" where
  "oop_atomic_cmpxchg discovered_addr compare_value new_value h =
     (let old = Reference_discovered h discovered_addr in
      if old = compare_value
      then (old, h\<lparr>Reference_discovered := (Reference_discovered h)(discovered_addr := new_value)\<rparr>)
      else (old, h))"

definition set_discovered_link_st ::
  "flags \<Rightarrow> nat \<Rightarrow> oop \<Rightarrow> 'g vm \<Rightarrow> fault + (bool \<times> 'g vm)" where
  "set_discovered_link_st f discovered_addr next_discovered s =
     (if ASSERT f \<and> discovery_is_mt s then Inl (AssertFailed ''must be'')
      else Inr (True,
             s\<lparr>heap := (heap s)\<lparr>Reference_discovered :=
                  (Reference_discovered (heap s))(discovered_addr := next_discovered)\<rparr>\<rparr>))"

definition set_discovered_link_mt ::
  "flags \<Rightarrow> nat \<Rightarrow> oop \<Rightarrow> 'g vm \<Rightarrow> fault + (bool \<times> 'g vm)" where
  "set_discovered_link_mt f discovered_addr next_discovered s =
     (if ASSERT f \<and> \<not> discovery_is_mt s then Inl (AssertFailed ''must be'')
      else
        let (retest, h) = oop_atomic_cmpxchg discovered_addr None next_discovered (heap s)
        in Inr (retest = None, s\<lparr>heap := h\<rparr>))"

definition set_discovered_link ::
  "flags \<Rightarrow> nat \<Rightarrow> oop \<Rightarrow> 'g vm \<Rightarrow> fault + (bool \<times> 'g vm)" where
  "set_discovered_link f discovered_addr next_discovered s =
     (if discovery_is_mt s then set_discovered_link_mt f discovered_addr next_discovered s
      else set_discovered_link_st f discovered_addr next_discovered s)"

text \<open>
  \<^verbatim>\<open>add_to_discovered_list\<close>; the list is the one of type \<open>rt\<close> at index \<open>idx\<close>, and an index
  outside the lists of that type is a fault.
\<close>

definition add_to_discovered_list ::
  "flags \<Rightarrow> ReferenceType \<Rightarrow> nat \<Rightarrow> nat \<Rightarrow> 'g vm \<Rightarrow> fault + 'g vm" where
  "add_to_discovered_list f rt idx obj s =
     (case lists_of rt s of
        Inl e \<Rightarrow> Inl e
      | Inr ls \<Rightarrow>
          if \<not> idx < length ls then Inl OutOfBounds
          else
            let current_head = head (ls ! idx);
                next_discovered = (if current_head \<noteq> None then current_head else Some obj)
            in case set_discovered_link f obj next_discovered s of
                 Inl e \<Rightarrow> Inl e
               | Inr (added, s1) \<Rightarrow>
                   if added
                   then Inr (set_lists_of rt (ls[idx := add_as_head obj (ls ! idx)]) s1)
                   else Inr s1)"

text \<open>
  \<^verbatim>\<open>verify_referent\<close> is compiled under \<^verbatim>\<open>#ifndef PRODUCT\<close> and consists of one \<^verbatim>\<open>assert\<close>.
  Every \<open>Some a\<close> is an object, so \<^verbatim>\<open>oopDesc::is_oop_or_null\<close> holds of every value and
  \<^verbatim>\<open>oopDesc::is_oop\<close> of every value but \<open>None\<close>.
\<close>

definition verify_referent :: "flags \<Rightarrow> nat \<Rightarrow> 'g vm \<Rightarrow> fault + unit" where
  "verify_referent f obj s =
     (if ASSERT f \<and> \<not> PRODUCT f \<and> \<not> discovery_is_concurrent s
         \<and> Reference_referent (heap s) obj = None
      then Inl (AssertFailed ''Bad referent found in Reference'')
      else Inr ())"

definition discover_reference ::
  "flags \<Rightarrow> 'g closures \<Rightarrow> nat \<Rightarrow> ReferenceType \<Rightarrow> 'g vm \<Rightarrow> fault + (bool \<times> 'g vm)" where
  "discover_reference f c obj rt s =
     (if \<not> discovering_refs s \<or> \<not> RegisterReferences f then Inr (False, s)
      else if rt = REF_FINAL \<and> Reference_next (heap s) obj \<noteq> None then Inr (False, s)
      else if \<not> is_subject_to_discovery c (gc (heap s)) obj then Inr (False, s)
      else
        case (case is_alive_non_header c of
                None \<Rightarrow> Inr False
              | Some do_object_b \<Rightarrow>
                  (case verify_referent f obj s of
                     Inl e \<Rightarrow> Inl e
                   | Inr _ \<Rightarrow> Inr (do_object_b (gc (heap s)) (Reference_referent (heap s) obj)))) of
          Inl e \<Rightarrow> Inl e
        | Inr True \<Rightarrow> Inr (False, s)
        | Inr False \<Rightarrow>
            if rt = REF_SOFT \<and> \<not> should_clear_reference c obj (soft_ref_timestamp_clock s)
            then Inr (False, s)
            else if Reference_discovered (heap s) obj \<noteq> None
            then
              (if ASSERT f \<and> \<not> UseG1GC f then Inl (AssertFailed ''inv'')
               else if ASSERT f \<and> \<not> discovery_is_concurrent s then Inl (AssertFailed ''inv'')
               else Inr (True, s))
            else
              case get_discovered_list f c rt s of
                Inl e \<Rightarrow> Inl e
              | Inr (idx, s1) \<Rightarrow>
                  (case add_to_discovered_list f rt idx obj s1 of
                     Inl e \<Rightarrow> Inl e
                   | Inr s2 \<Rightarrow>
                       (case verify_referent f obj s2 of
                          Inl e \<Rightarrow> Inl e
                        | Inr _ \<Rightarrow> Inr (True, s2))))"

section \<open>The iterator over one discovered list\<close>

text \<open>
  The iterator writes through \<^verbatim>\<open>_prev_discovered_addr\<close>, which points either at the head of the
  list it iterates (\<^verbatim>\<open>refs_list.adr_head()\<close>) or at the discovered field of an object
  (\<^verbatim>\<open>java_lang_ref_Reference::discovered_addr_raw(obj)\<close>). An iteration is the iterator, the list
  it holds by reference and the heap.
\<close>

datatype field_addr = adr_head | discovered_addr_raw nat

record DiscoveredListIterator =
  prev_discovered_addr :: field_addr
  prev_discovered :: oop
  current_discovered :: oop
  current_discovered_addr :: "field_addr option"
  next_discovered :: oop
  referent :: oop
  processed :: nat
  removed :: nat

record 'g iteration =
  iter :: DiscoveredListIterator
  refs_list :: DiscoveredList
  hp :: "'g heap"

definition oop_store :: "field_addr \<Rightarrow> oop \<Rightarrow> 'g iteration \<Rightarrow> 'g iteration" where
  "oop_store addr v st =
     (case addr of
        adr_head \<Rightarrow> st\<lparr>refs_list := (refs_list st)\<lparr>head := v\<rparr>\<rparr>
      | discovered_addr_raw a \<Rightarrow>
          st\<lparr>hp := (hp st)\<lparr>Reference_discovered := (Reference_discovered (hp st))(a := v)\<rparr>\<rparr>)"

text \<open>
  Modelled from the spec: the constructor of \<^verbatim>\<open>DiscoveredListIterator\<close>, \<^verbatim>\<open>has_next\<close>,
  \<^verbatim>\<open>next\<close>, \<^verbatim>\<open>move_to_next\<close> and \<^verbatim>\<open>is_referent_alive\<close> are inline functions of
  \<^verbatim>\<open>referenceProcessor.hpp\<close> and \<^verbatim>\<open>referenceProcessor.inline.hpp\<close>, which are not among the
  sources. The spec: "has_next() true while unvisited entries remain"; "a self-loop (points to
  itself) marks last element"; "is_referent_alive() delegates to an externally supplied liveness
  predicate". The source of \<^verbatim>\<open>remove\<close> says that the first \<^verbatim>\<open>_prev_next\<close> points into the
  \<^verbatim>\<open>DiscoveredList\<close> and that \<^verbatim>\<open>_prev\<close> is then null; a removed entry is left behind by
  \<^verbatim>\<open>move_to_next\<close>, a kept entry becomes the previous one in \<^verbatim>\<open>next\<close>.
\<close>

definition DiscoveredListIterator_ctor :: "DiscoveredList \<Rightarrow> DiscoveredListIterator" where
  "DiscoveredListIterator_ctor l =
     \<lparr>prev_discovered_addr = adr_head, prev_discovered = None,
      current_discovered = head l, current_discovered_addr = None,
      next_discovered = None, referent = None, processed = 0, removed = 0\<rparr>"

definition has_next :: "'g iteration \<Rightarrow> bool" where
  "has_next st = (current_discovered (iter st) \<noteq> None)"

definition move_to_next :: "'g iteration \<Rightarrow> 'g iteration" where
  "move_to_next st =
     (let i = iter st in
      st\<lparr>iter := i\<lparr>current_discovered :=
                      (if current_discovered i = next_discovered i then None
                       else next_discovered i),
                    processed := size_t_add (processed i) 1\<rparr>\<rparr>)"

definition iter_next :: "'g iteration \<Rightarrow> fault + 'g iteration" where
  "iter_next st =
     (let i = iter st in
      case current_discovered_addr i of
        None \<Rightarrow> Inl NullDereference
      | Some a \<Rightarrow>
          Inr (move_to_next
                 (st\<lparr>iter := i\<lparr>prev_discovered_addr := a,
                               prev_discovered := current_discovered i\<rparr>\<rparr>)))"

definition is_referent_alive :: "'g closures \<Rightarrow> 'g iteration \<Rightarrow> bool" where
  "is_referent_alive c st = is_alive c (gc (hp st)) (referent (iter st))"

text \<open>The iterator functions of \<^verbatim>\<open>referenceProcessor.cpp\<close>.\<close>

definition load_ptrs :: "flags \<Rightarrow> bool \<Rightarrow> 'g iteration \<Rightarrow> fault + 'g iteration" where
  "load_ptrs f allow_null_referent st =
     (case current_discovered (iter st) of
        None \<Rightarrow> Inl NullDereference
      | Some cur \<Rightarrow>
          let r = Reference_referent (hp st) cur in
          if ASSERT f \<and> \<not> allow_null_referent \<and> r = None
          then Inl (AssertFailed ''Expected an oop for referent field'')
          else Inr (st\<lparr>iter := (iter st)
                      \<lparr>current_discovered_addr := Some (discovered_addr_raw cur),
                       next_discovered := Reference_discovered (hp st) cur,
                       referent := r\<rparr>\<rparr>))"

definition remove :: "flags \<Rightarrow> 'g iteration \<Rightarrow> fault + 'g iteration" where
  "remove f st =
     (let i = iter st in
      if ASSERT f \<and> current_discovered i = None then Inl (AssertFailed ''Dropping a bad reference'')
      else
        case current_discovered_addr i of
          None \<Rightarrow> Inl NullDereference
        | Some a \<Rightarrow>
            let st1 = oop_store a None st;
                new_next = (if next_discovered i = current_discovered i then prev_discovered i
                            else next_discovered i);
                st2 = oop_store (prev_discovered_addr i) new_next st1
            in Inr (st2\<lparr>iter := i\<lparr>removed := size_t_add (removed i) 1\<rparr>,
                        refs_list := dec_length 1 (refs_list st2)\<rparr>))"

definition make_referent_alive :: "'g closures \<Rightarrow> 'g iteration \<Rightarrow> fault + 'g iteration" where
  "make_referent_alive c st =
     (case current_discovered (iter st) of
        None \<Rightarrow> Inl NullDereference
      | Some cur \<Rightarrow>
          let (g, r) = keep_alive c (gc (hp st)) (Reference_referent (hp st) cur) in
          Inr (st\<lparr>hp := (hp st)\<lparr>gc := g,
                    Reference_referent := (Reference_referent (hp st))(cur := r)\<rparr>\<rparr>))"

definition clear_referent :: "'g iteration \<Rightarrow> fault + 'g iteration" where
  "clear_referent st =
     (case current_discovered (iter st) of
        None \<Rightarrow> Inl NullDereference
      | Some cur \<Rightarrow>
          Inr (st\<lparr>hp := (hp st)\<lparr>Reference_referent :=
                    (Reference_referent (hp st))(cur := None)\<rparr>\<rparr>))"

text \<open>
  \<^verbatim>\<open>BarrierEnqueueDiscoveredFieldClosure::enqueue\<close> stores the value with a barrier; its
  \<^verbatim>\<open>assert\<close> that the address lies in the heap holds of every discovered field.
\<close>

definition BarrierEnqueueDiscoveredFieldClosure_enqueue ::
  "field_addr \<Rightarrow> oop \<Rightarrow> 'g iteration \<Rightarrow> 'g iteration" where
  "BarrierEnqueueDiscoveredFieldClosure_enqueue discovered_field_addr v st =
     oop_store discovered_field_addr v st"

definition enqueue :: "'g iteration \<Rightarrow> 'g iteration" where
  "enqueue st =
     (let i = iter st in
      if prev_discovered_addr i \<noteq> adr_head
      then BarrierEnqueueDiscoveredFieldClosure_enqueue (prev_discovered_addr i)
             (current_discovered i) st
      else oop_store (prev_discovered_addr i) (current_discovered i) st)"

text \<open>
  \<^verbatim>\<open>Universe::swap_reference_pending_list\<close> is the sink's "swap current head, return previous"
  of the spec.
\<close>

definition swap_reference_pending_list :: "oop \<Rightarrow> 'g heap \<Rightarrow> oop \<times> 'g heap" where
  "swap_reference_pending_list v h = (reference_pending_list h, h\<lparr>reference_pending_list := v\<rparr>)"

definition complete_enqueue :: "'g iteration \<Rightarrow> 'g iteration" where
  "complete_enqueue st =
     (case prev_discovered (iter st) of
        None \<Rightarrow> st
      | Some prev \<Rightarrow>
          let (old, h) = swap_reference_pending_list (head (refs_list st)) (hp st) in
          BarrierEnqueueDiscoveredFieldClosure_enqueue (discovered_addr_raw prev) old
            (st\<lparr>hp := h\<rparr>))"

section \<open>Processing one discovered list\<close>

text \<open>
  The loops follow the discovered fields of heap objects and need not end on a heap that is not
  a well-formed list, so they are partial functions: \<open>None\<close> is a loop that never returns.
  \<^verbatim>\<open>log_enqueued_ref\<close> asserts that the object is an oop, which holds of every \<open>Some a\<close>.
\<close>

partial_function (option) process_discovered_list_work_loop ::
  "flags \<Rightarrow> 'g closures \<Rightarrow> bool \<Rightarrow> bool \<Rightarrow> 'g iteration \<Rightarrow> (fault + 'g iteration) option" where
  "process_discovered_list_work_loop f c concurrent do_enqueue_and_clear st =
     (if has_next st then
        (case load_ptrs f concurrent st of
           Inl e \<Rightarrow> Some (Inl e)
         | Inr st1 \<Rightarrow>
             if referent (iter st1) = None then
               (case remove f st1 of
                  Inl e \<Rightarrow> Some (Inl e)
                | Inr st2 \<Rightarrow>
                    process_discovered_list_work_loop f c concurrent do_enqueue_and_clear
                      (move_to_next st2))
             else if is_referent_alive c st1 then
               (case remove f st1 of
                  Inl e \<Rightarrow> Some (Inl e)
                | Inr st2 \<Rightarrow>
                    (case make_referent_alive c st2 of
                       Inl e \<Rightarrow> Some (Inl e)
                     | Inr st3 \<Rightarrow>
                         process_discovered_list_work_loop f c concurrent do_enqueue_and_clear
                           (move_to_next st3)))
             else
               (case (if do_enqueue_and_clear
                      then (case clear_referent st1 of
                              Inl e \<Rightarrow> Inl e
                            | Inr st2 \<Rightarrow> Inr (enqueue st2))
                      else Inr st1) of
                  Inl e \<Rightarrow> Some (Inl e)
                | Inr st2 \<Rightarrow>
                    (case iter_next st2 of
                       Inl e \<Rightarrow> Some (Inl e)
                     | Inr st3 \<Rightarrow>
                         process_discovered_list_work_loop f c concurrent do_enqueue_and_clear
                           st3)))
      else Some (Inr st))"

definition process_discovered_list_work ::
  "flags \<Rightarrow> 'g closures \<Rightarrow> bool \<Rightarrow> DiscoveredList \<Rightarrow> 'g heap \<Rightarrow> bool
     \<Rightarrow> (fault + (nat \<times> DiscoveredList \<times> 'g heap)) option" where
  "process_discovered_list_work f c concurrent l h do_enqueue_and_clear =
     (case process_discovered_list_work_loop f c concurrent do_enqueue_and_clear
             \<lparr>iter = DiscoveredListIterator_ctor l, refs_list = l, hp = h\<rparr> of
        None \<Rightarrow> None
      | Some (Inl e) \<Rightarrow> Some (Inl e)
      | Some (Inr st) \<Rightarrow>
          let st1 = (if do_enqueue_and_clear
                     then (let st' = complete_enqueue st
                           in st'\<lparr>refs_list := DiscoveredList_clear (refs_list st')\<rparr>)
                     else st)
          in Some (Inr (removed (iter st1), refs_list st1, hp st1)))"

partial_function (option) process_final_keep_alive_work_loop ::
  "flags \<Rightarrow> 'g closures \<Rightarrow> 'g iteration \<Rightarrow> (fault + 'g iteration) option" where
  "process_final_keep_alive_work_loop f c st =
     (if has_next st then
        (case load_ptrs f False st of
           Inl e \<Rightarrow> Some (Inl e)
         | Inr st1 \<Rightarrow>
             (case make_referent_alive c st1 of
                Inl e \<Rightarrow> Some (Inl e)
              | Inr st2 \<Rightarrow>
                  (case current_discovered (iter st2) of
                     None \<Rightarrow> Some (Inl NullDereference)
                   | Some obj \<Rightarrow>
                       if ASSERT f \<and> Reference_next (hp st2) obj \<noteq> None
                       then Some (Inl (AssertFailed ''enqueued FinalReference''))
                       else
                         let st3 = st2\<lparr>hp := (hp st2)\<lparr>Reference_next :=
                                       (Reference_next (hp st2))(obj := Some obj)\<rparr>\<rparr>
                         in (case iter_next (enqueue st3) of
                               Inl e \<Rightarrow> Some (Inl e)
                             | Inr st4 \<Rightarrow> process_final_keep_alive_work_loop f c st4))))
      else Some (Inr st))"

definition process_final_keep_alive_work ::
  "flags \<Rightarrow> 'g closures \<Rightarrow> DiscoveredList \<Rightarrow> 'g heap
     \<Rightarrow> (fault + (nat \<times> DiscoveredList \<times> 'g heap)) option" where
  "process_final_keep_alive_work f c l h =
     (case process_final_keep_alive_work_loop f c
             \<lparr>iter = DiscoveredListIterator_ctor l, refs_list = l, hp = h\<rparr> of
        None \<Rightarrow> None
      | Some (Inl e) \<Rightarrow> Some (Inl e)
      | Some (Inr st) \<Rightarrow>
          let st' = complete_enqueue st;
              st1 = st'\<lparr>refs_list := DiscoveredList_clear (refs_list st')\<rparr>
          in if ASSERT f \<and> removed (iter st1) \<noteq> 0
             then Some (Inl (AssertFailed ''This phase does not remove anything.''))
             else Some (Inr (removed (iter st1), refs_list st1, hp st1)))"

section \<open>Balancing the queues of one reference type\<close>

text \<open>
  \<^verbatim>\<open>total_count\<close> reads the first \<^verbatim>\<open>_max_num_queues\<close> lists of a reference type.
\<close>

definition total_count :: "nat \<Rightarrow> DiscoveredList list \<Rightarrow> fault + nat" where
  "total_count max_queues ref_lists =
     (if length ref_lists < max_queues then Inl OutOfBounds
      else Inr (foldl size_t_add 0 (map len (take max_queues ref_lists))))"

text \<open>
  \<^verbatim>\<open>need_balance_queues\<close> and its loop over the lists beyond the processing degree.
\<close>

function need_balance_loop :: "nat \<Rightarrow> nat \<Rightarrow> DiscoveredList list \<Rightarrow> fault + bool" where
  "need_balance_loop i max_queues refs_lists =
     (if i < max_queues then
        (if \<not> i < length refs_lists then Inl OutOfBounds
         else if \<not> is_empty (refs_lists ! i) then Inr True
         else need_balance_loop (i + 1) max_queues refs_lists)
      else Inr False)"
  by pat_completeness auto
termination
  by (relation "measure (\<lambda>(i, max_queues, refs_lists). max_queues - i)") auto

definition need_balance_queues ::
  "flags \<Rightarrow> bool \<Rightarrow> nat \<Rightarrow> nat \<Rightarrow> DiscoveredList list \<Rightarrow> fault + bool" where
  "need_balance_queues f is_mt n_queues max_queues refs_lists =
     (if ASSERT f \<and> \<not> is_mt then Inl (AssertFailed ''why balance non-mt processing?'')
      else if ParallelRefProcBalancingEnabled f then Inr True
      else need_balance_loop n_queues max_queues refs_lists)"

text \<open>
  The inner \<^verbatim>\<open>for\<close> loop of \<^verbatim>\<open>balance_queues\<close> that finds the element to split the list on.
\<close>

fun find_split :: "(nat \<Rightarrow> oop) \<Rightarrow> nat \<Rightarrow> oop \<Rightarrow> oop \<Rightarrow> fault + (oop \<times> oop)" where
  "find_split d 0 move_tail new_head = Inr (move_tail, new_head)"
| "find_split d (Suc j) move_tail new_head =
     (case new_head of
        None \<Rightarrow> Inl NullDereference
      | Some a \<Rightarrow> find_split d j new_head (d a))"

text \<open>
  The body of the \<^verbatim>\<open>while\<close> loop after \<^verbatim>\<open>refs_to_move\<close> is known: the chain of the first
  \<^verbatim>\<open>refs_to_move\<close> objects of list \<open>from_idx\<close> is added to list \<open>to_idx\<close> and removed from list
  \<open>from_idx\<close>. The state is the discovered fields and the lists of the reference type.
\<close>

definition move_chain ::
  "nat \<Rightarrow> nat \<Rightarrow> nat \<Rightarrow> (nat \<Rightarrow> oop) \<times> DiscoveredList list
     \<Rightarrow> fault + ((nat \<Rightarrow> oop) \<times> DiscoveredList list)" where
  "move_chain from_idx to_idx refs_to_move st =
     (let (d, ref_lists) = st;
          move_head = head (ref_lists ! from_idx)
      in case find_split d refs_to_move move_head move_head of
           Inl e \<Rightarrow> Inl e
         | Inr (move_tail, new_head) \<Rightarrow>
             (case move_tail of
                None \<Rightarrow> Inl NullDereference
              | Some t \<Rightarrow>
                  let d1 = (if head (ref_lists ! to_idx) = None then d(t := Some t)
                            else d(t := head (ref_lists ! to_idx)));
                      l1 = ref_lists[to_idx :=
                             inc_length refs_to_move ((ref_lists ! to_idx)\<lparr>head := move_head\<rparr>)];
                      l2 = l1[from_idx :=
                             dec_length refs_to_move
                               ((l1 ! from_idx)\<lparr>head := (if move_tail = new_head then None
                                                          else new_head)\<rparr>)]
                  in Inr (d1, l2)))"

partial_function (option) balance_move_loop ::
  "flags \<Rightarrow> nat \<Rightarrow> nat \<Rightarrow> nat \<Rightarrow> nat \<Rightarrow> nat \<Rightarrow> (nat \<Rightarrow> oop) \<times> DiscoveredList list
     \<Rightarrow> (fault + (nat \<times> (nat \<Rightarrow> oop) \<times> DiscoveredList list)) option" where
  "balance_move_loop f n_queues avg_refs from_idx remaining_to_move to_idx st =
     (if remaining_to_move > 0 then
        (if ASSERT f \<and> \<not> to_idx < n_queues then Some (Inl (AssertFailed ''Sanity Check!''))
         else if \<not> to_idx < length (snd st) \<or> \<not> from_idx < length (snd st)
         then Some (Inl OutOfBounds)
         else
           let to_len = len (snd st ! to_idx) in
           if to_len \<ge> avg_refs
           then balance_move_loop f n_queues avg_refs from_idx remaining_to_move (to_idx + 1) st
           else
             let refs_to_move = MIN2 remaining_to_move (size_t_sub avg_refs to_len) in
             if ASSERT f \<and> \<not> refs_to_move > 0
             then Some (Inl (AssertFailed ''otherwise the code below will fail''))
             else
               (case move_chain from_idx to_idx refs_to_move st of
                  Inl e \<Rightarrow> Some (Inl e)
                | Inr st1 \<Rightarrow>
                    balance_move_loop f n_queues avg_refs from_idx
                      (size_t_sub remaining_to_move refs_to_move) to_idx st1))
      else Some (Inr (to_idx, st)))"

text \<open>
  The outer \<^verbatim>\<open>for\<close> loop over \<open>from_idx\<close>, given the indices it still has to visit.
\<close>

fun balance_from_loop ::
  "flags \<Rightarrow> nat \<Rightarrow> nat \<Rightarrow> nat list \<Rightarrow> nat \<Rightarrow> (nat \<Rightarrow> oop) \<times> DiscoveredList list
     \<Rightarrow> (fault + (nat \<times> (nat \<Rightarrow> oop) \<times> DiscoveredList list)) option" where
  "balance_from_loop f n_queues avg_refs [] to_idx st = Some (Inr (to_idx, st))"
| "balance_from_loop f n_queues avg_refs (from_idx # rest) to_idx st =
     (if \<not> from_idx < length (snd st) then Some (Inl OutOfBounds)
      else
        let from_len = len (snd st ! from_idx);
            remaining_to_move =
              (if from_idx \<ge> n_queues then from_len
               else if from_len > avg_refs then size_t_sub from_len avg_refs else 0)
        in case balance_move_loop f n_queues avg_refs from_idx remaining_to_move to_idx st of
             None \<Rightarrow> None
           | Some (Inl e) \<Rightarrow> Some (Inl e)
           | Some (Inr (to_idx1, st1)) \<Rightarrow> balance_from_loop f n_queues avg_refs rest to_idx1 st1)"

text \<open>
  \<^verbatim>\<open>balance_queues\<close>, on the discovered fields and the lists of one reference type. The logging
  calls are left out. The last check is compiled under \<^verbatim>\<open>#ifdef ASSERT\<close>.
\<close>

definition balance_queues ::
  "flags \<Rightarrow> nat \<Rightarrow> nat \<Rightarrow> (nat \<Rightarrow> oop) \<times> DiscoveredList list
     \<Rightarrow> (fault + ((nat \<Rightarrow> oop) \<times> DiscoveredList list)) option" where
  "balance_queues f n_queues max_queues st =
     (case total_count max_queues (snd st) of
        Inl e \<Rightarrow> Some (Inl e)
      | Inr total_refs \<Rightarrow>
          if n_queues = 0 then Some (Inl DivideByZero)
          else
            let avg_refs = size_t_add (total_refs div n_queues) 1 in
            case balance_from_loop f n_queues avg_refs [0..<max_queues] 0 st of
              None \<Rightarrow> None
            | Some (Inl e) \<Rightarrow> Some (Inl e)
            | Some (Inr (to_idx, st1)) \<Rightarrow>
                if ASSERT f \<and> length (snd st1) < n_queues then Some (Inl OutOfBounds)
                else if ASSERT f
                        \<and> total_refs \<noteq> foldl size_t_add 0 (map len (take n_queues (snd st1)))
                then Some (Inl (AssertFailed ''Balancing was incomplete''))
                else Some (Inr st1))"

section \<open>Phase tasks, phases and the processing of one cycle\<close>

text \<open>
  Sequencing of computations that may fault (\<open>Inl\<close>) or not return (\<open>None\<close>).
\<close>

definition then_do ::
  "('e + 'a) option \<Rightarrow> ('a \<Rightarrow> ('e + 'b) option) \<Rightarrow> ('e + 'b) option" where
  "then_do m k = (case m of None \<Rightarrow> None | Some (Inl e) \<Rightarrow> Some (Inl e) | Some (Inr x) \<Rightarrow> k x)"

definition returns :: "'e + 'a \<Rightarrow> ('e + 'a) option" where
  "returns r = Some r"

text \<open>
  Modelled from the spec: \<^verbatim>\<open>ReferenceProcessorPhaseTimes\<close> is declared in
  \<^verbatim>\<open>referenceProcessorPhaseTimes.hpp\<close>, which is not among the sources. Of the "aggregate
  statistics" of the spec the model keeps what the processor reads back: the number of
  discovered and of dropped references per reference type and whether processing is
  multi-threaded. Times are not modelled.
\<close>

record ReferenceProcessorPhaseTimes =
  ref_discovered :: "ReferenceType \<Rightarrow> nat"
  ref_dropped :: "ReferenceType \<Rightarrow> nat"
  phase_processing_is_mt :: bool


definition add_ref_dropped ::
  "ReferenceType \<Rightarrow> nat \<Rightarrow> ReferenceProcessorPhaseTimes \<Rightarrow> ReferenceProcessorPhaseTimes" where
  "add_ref_dropped rt n pt = pt\<lparr>ref_dropped := (ref_dropped pt)(rt := size_t_add (ref_dropped pt rt) n)\<rparr>"


text \<open>
  \<^verbatim>\<open>RefProcTask::process_discovered_list\<close>: the list of the worker among those of the reference
  type is processed in place.
\<close>

definition process_discovered_list ::
  "flags \<Rightarrow> 'g closures \<Rightarrow> nat \<Rightarrow> ReferenceType \<Rightarrow> 'g vm \<times> ReferenceProcessorPhaseTimes
     \<Rightarrow> (fault + ('g vm \<times> ReferenceProcessorPhaseTimes)) option" where
  "process_discovered_list f c worker ref_type sp =
     (let (s, phase_times) = sp in
      case lists_of ref_type s of
        Inl e \<Rightarrow> Some (Inl e)
      | Inr dl \<Rightarrow>
          let do_enqueue_and_clear = (ref_type \<noteq> REF_FINAL) in
          if \<not> worker < length dl then Some (Inl OutOfBounds)
          else
            then_do (process_discovered_list_work f c (discovery_is_concurrent s)
                       (dl ! worker) (heap s) do_enqueue_and_clear)
              (\<lambda>(n_removed, l, h).
                 Some (Inr (set_lists_of ref_type (dl[worker := l]) (s\<lparr>heap := h\<rparr>),
                            add_ref_dropped ref_type n_removed phase_times))))"

text \<open>
  The three phase tasks and their \<^verbatim>\<open>rp_work\<close>. \<^verbatim>\<open>complete_gc->do_void()\<close> closes the reachable
  set in the collector's state.
\<close>

datatype RefProcTask =
    RefProcSoftWeakFinalPhaseTask
  | RefProcKeepAliveFinalPhaseTask
  | RefProcPhantomPhaseTask

definition do_void ::
  "'g closures \<Rightarrow> 'g vm \<times> ReferenceProcessorPhaseTimes
     \<Rightarrow> (fault + ('g vm \<times> ReferenceProcessorPhaseTimes)) option" where
  "do_void c sp =
     (let (s, phase_times) = sp in
      Some (Inr (s\<lparr>heap := (heap s)\<lparr>gc := complete_gc c (gc (heap s))\<rparr>\<rparr>, phase_times)))"

fun rp_work ::
  "flags \<Rightarrow> 'g closures \<Rightarrow> RefProcTask \<Rightarrow> nat \<Rightarrow> 'g vm \<times> ReferenceProcessorPhaseTimes
     \<Rightarrow> (fault + ('g vm \<times> ReferenceProcessorPhaseTimes)) option" where
  "rp_work f c RefProcSoftWeakFinalPhaseTask worker sp =
     then_do (process_discovered_list f c worker REF_SOFT sp) (\<lambda>sp1.
     then_do (process_discovered_list f c worker REF_WEAK sp1) (\<lambda>sp2.
     then_do (process_discovered_list f c worker REF_FINAL sp2) (do_void c)))"
| "rp_work f c RefProcKeepAliveFinalPhaseTask worker sp =
     (let (s, phase_times) = sp in
      if \<not> worker < length (discoveredFinalRefs s) then Some (Inl OutOfBounds)
      else
        then_do (process_final_keep_alive_work f c (discoveredFinalRefs s ! worker) (heap s))
          (\<lambda>(n_removed, l, h).
             do_void c (s\<lparr>discoveredFinalRefs := (discoveredFinalRefs s)[worker := l],
                          heap := h\<rparr>, phase_times)))"
| "rp_work f c RefProcPhantomPhaseTask worker sp =
     then_do (process_discovered_list f c worker REF_PHANTOM sp) (do_void c)"

text \<open>
  Modelled from the spec: \<^verbatim>\<open>RefProcProxyTask::work\<close> and \<^verbatim>\<open>WorkerThreads::run_task\<close> are not
  among the sources. The spec: "run_task(task, degree), dispatches degree indexed invocations in
  parallel or runs them inline if degree == 1"; "each task owning disjoint queue indices".
  The invocations are run one after the other, in the order of their indices. \<open>workers\<close> is
  \<open>None\<close> for \<^verbatim>\<open>nullptr\<close> and otherwise the number of active workers.
\<close>

fun run_workers ::
  "flags \<Rightarrow> 'g closures \<Rightarrow> RefProcTask \<Rightarrow> nat list \<Rightarrow> 'g vm \<times> ReferenceProcessorPhaseTimes
     \<Rightarrow> (fault + ('g vm \<times> ReferenceProcessorPhaseTimes)) option" where
  "run_workers f c task [] sp = Some (Inr sp)"
| "run_workers f c task (i # rest) sp =
     then_do (rp_work f c task i sp) (run_workers f c task rest)"

definition run_task ::
  "flags \<Rightarrow> 'g closures \<Rightarrow> RefProcTask \<Rightarrow> nat option
     \<Rightarrow> 'g vm \<times> ReferenceProcessorPhaseTimes
     \<Rightarrow> (fault + ('g vm \<times> ReferenceProcessorPhaseTimes)) option" where
  "run_task f c task workers sp =
     (let s = fst sp in
      if processing_is_mt f s then
        (case workers of
           None \<Rightarrow>
             Some (Inl (if ASSERT f
                        then AssertFailed ''can not dispatch multi threaded without workers''
                        else NullDereference))
         | Some active_workers \<Rightarrow>
             if ASSERT f \<and> \<not> active_workers \<ge> num_queues s
             then Some (Inl (AssertFailed ''Ergonomically chosen workers''))
             else run_workers f c task [0..<num_queues s] sp)
      else run_workers f c task [0..<max_num_queues s] sp)"

definition num_active_workers :: "nat option \<Rightarrow> nat" where
  "num_active_workers workers = (case workers of None \<Rightarrow> 1 | Some n \<Rightarrow> n)"

definition maybe_balance_queues ::
  "flags \<Rightarrow> ReferenceType \<Rightarrow> 'g vm \<Rightarrow> (fault + 'g vm) option" where
  "maybe_balance_queues f rt s =
     (if ASSERT f \<and> \<not> processing_is_mt f s
      then Some (Inl (AssertFailed ''Should not call this otherwise''))
      else
        case lists_of rt s of
          Inl e \<Rightarrow> Some (Inl e)
        | Inr ls \<Rightarrow>
            (case need_balance_queues f (processing_is_mt f s) (num_queues s)
                    (max_num_queues s) ls of
               Inl e \<Rightarrow> Some (Inl e)
             | Inr False \<Rightarrow> Some (Inr s)
             | Inr True \<Rightarrow>
                 then_do (balance_queues f (num_queues s) (max_num_queues s)
                            (Reference_discovered (heap s), ls))
                   (\<lambda>(d, ls1).
                      Some (Inr (set_lists_of rt ls1
                                   (s\<lparr>heap := (heap s)\<lparr>Reference_discovered := d\<rparr>\<rparr>))))))"

text \<open>\<^verbatim>\<open>verify_total_count_zero\<close> is compiled under \<^verbatim>\<open>#ifdef ASSERT\<close>.\<close>

definition verify_total_count_zero ::
  "flags \<Rightarrow> ReferenceType \<Rightarrow> 'g vm \<Rightarrow> (fault + unit) option" where
  "verify_total_count_zero f rt s =
     (if \<not> ASSERT f then Some (Inr ())
      else
        case lists_of rt s of
          Inl e \<Rightarrow> Some (Inl e)
        | Inr ls \<Rightarrow>
            (case total_count (max_num_queues s) ls of
               Inl e \<Rightarrow> Some (Inl e)
             | Inr n \<Rightarrow>
                 if n = 0 then Some (Inr ())
                 else Some (Inl (AssertFailed ''must be empty but has elements''))))"

text \<open>
  The three phases. The adjuster is a local object of each phase: it is constructed after the
  early return and destroyed when the phase returns.
\<close>

definition process_soft_weak_final_refs ::
  "flags \<Rightarrow> 'g closures \<Rightarrow> nat option \<Rightarrow> 'g vm \<times> ReferenceProcessorPhaseTimes
     \<Rightarrow> (fault + ('g vm \<times> ReferenceProcessorPhaseTimes)) option" where
  "process_soft_weak_final_refs f c workers sp =
     (let (s, phase_times) = sp;
          num_soft_refs = ref_discovered phase_times REF_SOFT;
          num_weak_refs = ref_discovered phase_times REF_WEAK;
          num_final_refs = ref_discovered phase_times REF_FINAL;
          num_total_refs = size_t_add (size_t_add num_soft_refs num_weak_refs) num_final_refs
      in if num_total_refs = 0 then Some (Inr sp)
         else
           then_do (returns (RefProcMTDegreeAdjuster_ctor f (active_processor_count c)
                               SoftWeakFinalRefsPhase (num_active_workers workers)
                               num_total_refs s)) (\<lambda>(a, s1).
           then_do (if processing_is_mt f s1
                    then then_do (maybe_balance_queues f REF_SOFT s1) (\<lambda>s2.
                         then_do (maybe_balance_queues f REF_WEAK s2)
                           (maybe_balance_queues f REF_FINAL))
                    else Some (Inr s1)) (\<lambda>s2.
           then_do (run_task f c RefProcSoftWeakFinalPhaseTask workers (s2, phase_times))
             (\<lambda>(s3, pt3).
           then_do (verify_total_count_zero f REF_SOFT s3) (\<lambda>_.
           then_do (verify_total_count_zero f REF_WEAK s3) (\<lambda>_.
           then_do (returns (RefProcMTDegreeAdjuster_dtor f a s3)) (\<lambda>s4.
           Some (Inr (s4, pt3)))))))))"

definition process_final_keep_alive ::
  "flags \<Rightarrow> 'g closures \<Rightarrow> nat option \<Rightarrow> 'g vm \<times> ReferenceProcessorPhaseTimes
     \<Rightarrow> (fault + ('g vm \<times> ReferenceProcessorPhaseTimes)) option" where
  "process_final_keep_alive f c workers sp =
     (let (s, phase_times) = sp;
          num_final_refs = ref_discovered phase_times REF_FINAL
      in if num_final_refs = 0 then Some (Inr sp)
         else
           then_do (returns (RefProcMTDegreeAdjuster_ctor f (active_processor_count c)
                               KeepAliveFinalRefsPhase (num_active_workers workers)
                               num_final_refs s)) (\<lambda>(a, s1).
           then_do (if processing_is_mt f s1 then maybe_balance_queues f REF_FINAL s1
                    else Some (Inr s1)) (\<lambda>s2.
           then_do (run_task f c RefProcKeepAliveFinalPhaseTask workers (s2, phase_times))
             (\<lambda>(s3, pt3).
           then_do (verify_total_count_zero f REF_FINAL s3) (\<lambda>_.
           then_do (returns (RefProcMTDegreeAdjuster_dtor f a s3)) (\<lambda>s4.
           Some (Inr (s4, pt3))))))))"

definition process_phantom_refs ::
  "flags \<Rightarrow> 'g closures \<Rightarrow> nat option \<Rightarrow> 'g vm \<times> ReferenceProcessorPhaseTimes
     \<Rightarrow> (fault + ('g vm \<times> ReferenceProcessorPhaseTimes)) option" where
  "process_phantom_refs f c workers sp =
     (let (s, phase_times) = sp;
          num_phantom_refs = ref_discovered phase_times REF_PHANTOM
      in if num_phantom_refs = 0 then Some (Inr sp)
         else
           then_do (returns (RefProcMTDegreeAdjuster_ctor f (active_processor_count c)
                               PhantomRefsPhase (num_active_workers workers)
                               num_phantom_refs s)) (\<lambda>(a, s1).
           then_do (if processing_is_mt f s1 then maybe_balance_queues f REF_PHANTOM s1
                    else Some (Inr s1)) (\<lambda>s2.
           then_do (run_task f c RefProcPhantomPhaseTask workers (s2, phase_times))
             (\<lambda>(s3, pt3).
           then_do (verify_total_count_zero f REF_PHANTOM s3) (\<lambda>_.
           then_do (returns (RefProcMTDegreeAdjuster_dtor f a s3)) (\<lambda>s4.
           Some (Inr (s4, pt3))))))))"



section \<open>Specification-side definitions\<close>

text \<open>
  The worker count the spec gives for a phase: the maximum for the KeepAliveFinal phase, and
  otherwise the minimum of \<open>1 + count / threshold\<close>, the caller's maximum and the processor
  count.
\<close>

definition spec_mt_degree :: "flags \<Rightarrow> int \<Rightarrow> RefProcPhases \<Rightarrow> nat \<Rightarrow> nat \<Rightarrow> nat" where
  "spec_mt_degree f procs phase max_threads ref_count =
     (if phase = KeepAliveFinalRefsPhase then max_threads
      else min (1 + ref_count div ReferencesPerThread f) (min max_threads (nat procs)))"

text \<open>
  The rejections of steps 1 to 3 of the discovery protocol of the spec: not in a discovery
  window, registration switched off, a Final reference already delivered, an object that does
  not qualify, a referent the configured liveness predicate reports reachable, a Soft reference
  the clearing policy does not clear.
\<close>

definition rejected_before_lookup ::
  "flags \<Rightarrow> 'g closures \<Rightarrow> nat \<Rightarrow> ReferenceType \<Rightarrow> 'g vm \<Rightarrow> bool" where
  "rejected_before_lookup f c obj rt s =
     (\<not> discovering_refs s \<or> \<not> RegisterReferences f
      \<or> (rt = REF_FINAL \<and> Reference_next (heap s) obj \<noteq> None)
      \<or> \<not> is_subject_to_discovery c (gc (heap s)) obj
      \<or> (case is_alive_non_header c of
            None \<Rightarrow> False
          | Some do_object_b \<Rightarrow> do_object_b (gc (heap s)) (Reference_referent (heap s) obj))
      \<or> (rt = REF_SOFT \<and> \<not> should_clear_reference c obj (soft_ref_timestamp_clock s)))"


text \<open>
  A distribution of entries across the queues of one reference type. \<open>chain d xs t\<close>: the
  discovered field of every object of \<open>xs\<close> points to the next object of \<open>xs\<close>, and that of
  the last one to \<open>t\<close>. \<open>is_list d l xs\<close>: the list \<open>l\<close> holds exactly the objects \<open>xs\<close>, in
  this order; its length is their number, its head is the first of them (null when there is
  none), and the last object points to itself. \<open>queues_ok d ls xss\<close>: every queue of \<open>ls\<close>
  holds the objects of the corresponding list of \<open>xss\<close>, and no object is in two queues or
  twice in one.
\<close>

fun chain :: "(nat \<Rightarrow> oop) \<Rightarrow> nat list \<Rightarrow> oop \<Rightarrow> bool" where
  "chain d [] t = True"
| "chain d [x] t = (d x = t)"
| "chain d (x # y # r) t = (d x = Some y \<and> chain d (y # r) t)"

definition is_list :: "(nat \<Rightarrow> oop) \<Rightarrow> DiscoveredList \<Rightarrow> nat list \<Rightarrow> bool" where
  "is_list d l xs =
     (len l = length xs
      \<and> head l = (case xs of [] \<Rightarrow> None | x # _ \<Rightarrow> Some x)
      \<and> chain d xs (Some (last xs)))"

definition queues_ok :: "(nat \<Rightarrow> oop) \<Rightarrow> DiscoveredList list \<Rightarrow> nat list list \<Rightarrow> bool" where
  "queues_ok d ls xss = (list_all2 (is_list d) ls xss \<and> distinct (concat xss))"

text \<open>
  The invariants of the two loops of \<^verbatim>\<open>balance_queues\<close>, on the entries of the queues: the
  queues before \<open>to_idx\<close> are full, the active queues before \<open>from_idx\<close> hold at most the
  average, the queues beyond the processing degree before \<open>from_idx\<close> are empty; and the queue
  \<open>from_idx\<close> still holds what remains to be moved, on top of the average when it is active.
\<close>

definition balance_inv :: "nat \<Rightarrow> nat \<Rightarrow> nat \<Rightarrow> nat \<Rightarrow> nat list list \<Rightarrow> bool" where
  "balance_inv n_queues avg_refs from_idx to_idx xss =
     ((\<forall>i < to_idx. avg_refs \<le> length (xss ! i))
      \<and> (\<forall>i < n_queues. i < from_idx \<longrightarrow> length (xss ! i) \<le> avg_refs)
      \<and> (\<forall>i < length xss. n_queues \<le> i \<and> i < from_idx \<longrightarrow> xss ! i = []))"

definition balance_source :: "nat \<Rightarrow> nat \<Rightarrow> nat \<Rightarrow> nat \<Rightarrow> nat list list \<Rightarrow> bool" where
  "balance_source n_queues avg_refs from_idx remaining xss =
     (if from_idx < n_queues
      then (remaining = 0 \<and> length (xss ! from_idx) \<le> avg_refs)
           \<or> length (xss ! from_idx) = avg_refs + remaining
      else length (xss ! from_idx) = remaining)"


text \<open>
  What one visit of \<^verbatim>\<open>process_final_keep_alive_work\<close> does to the heap: the keep-alive closure
  is applied to the referent field of the reference, and the \<^verbatim>\<open>next\<close> field of the reference
  is made to point to the reference itself. \<open>keep_alive_all\<close> is the visit of every reference
  of a list, in the order of the list.
\<close>

definition visit_final :: "'g closures \<Rightarrow> nat \<Rightarrow> 'g heap \<Rightarrow> 'g heap" where
  "visit_final c a h =
     (let (g, r) = keep_alive c (gc h) (Reference_referent h a) in
      h\<lparr>gc := g,
        Reference_referent := (Reference_referent h)(a := r),
        Reference_next := (Reference_next h)(a := Some a)\<rparr>)"

fun keep_alive_all :: "'g closures \<Rightarrow> nat list \<Rightarrow> 'g heap \<Rightarrow> 'g heap" where
  "keep_alive_all c [] h = h"
| "keep_alive_all c (a # as) h = keep_alive_all c as (visit_final c a h)"

text \<open>
  The value a field address holds, and the iteration state after the visit of the entry \<open>y\<close>
  by the loop of \<^verbatim>\<open>process_final_keep_alive_work\<close>.
\<close>

definition oop_load :: "field_addr \<Rightarrow> 'g iteration \<Rightarrow> oop" where
  "oop_load addr st =
     (case addr of
        adr_head \<Rightarrow> head (refs_list st)
      | discovered_addr_raw a \<Rightarrow> Reference_discovered (hp st) a)"

definition after_final_visit :: "'g closures \<Rightarrow> nat \<Rightarrow> 'g iteration \<Rightarrow> 'g iteration" where
  "after_final_visit c y st =
     \<lparr>iter = (iter st)\<lparr>prev_discovered_addr := discovered_addr_raw y,
                       prev_discovered := Some y,
                       current_discovered :=
                         (if Some y = Reference_discovered (hp st) y then None
                          else Reference_discovered (hp st) y),
                       current_discovered_addr := Some (discovered_addr_raw y),
                       next_discovered := Reference_discovered (hp st) y,
                       referent := Reference_referent (hp st) y,
                       processed := size_t_add (processed (iter st)) 1\<rparr>,
      refs_list = refs_list st,
      hp = visit_final c y (hp st)\<rparr>"

text \<open>
  The position of an iterator on a discovered list: the list holds the entries \<open>ks\<close> the
  iterator has kept, followed by the entries \<open>ys\<close> it has not visited yet; the current entry
  is the first of \<open>ys\<close>, the previous one the last of \<open>ks\<close>.
\<close>

definition cursor_at :: "'g iteration \<Rightarrow> nat list \<Rightarrow> nat list \<Rightarrow> bool" where
  "cursor_at st ks ys =
     (is_list (Reference_discovered (hp st)) (refs_list st) (ks @ ys)
      \<and> distinct (ks @ ys)
      \<and> current_discovered (iter st) = (case ys of [] \<Rightarrow> None | y # _ \<Rightarrow> Some y)
      \<and> prev_discovered (iter st) = (if ks = [] then None else Some (last ks))
      \<and> prev_discovered_addr (iter st)
          = (if ks = [] then adr_head else discovered_addr_raw (last ks)))"

text \<open>
  A pass of \<^verbatim>\<open>process_discovered_list_work\<close> that neither clears nor enqueues, on the part
  of the heap it reads and writes: the collector's marking state and the referent fields. An
  entry is kept on the list when its referent is neither null nor alive; the referent of a
  dropped entry is kept alive when it is not null. \<open>survivors\<close> are the entries the pass keeps,
  \<open>drop_pass\<close> is the marking and the referent fields after the pass, and \<open>same_fields\<close> says
  that two heaps agree on the \<^verbatim>\<open>next\<close> fields, the pending list and the clock of
  \<^verbatim>\<open>SoftReference\<close>.
\<close>

definition kept :: "'g closures \<Rightarrow> nat \<Rightarrow> 'g \<times> (nat \<Rightarrow> oop) \<Rightarrow> bool" where
  "kept c y v = (case snd v y of None \<Rightarrow> False | Some r \<Rightarrow> \<not> is_alive c (fst v) (Some r))"

definition drop_visit ::
  "'g closures \<Rightarrow> nat \<Rightarrow> 'g \<times> (nat \<Rightarrow> oop) \<Rightarrow> 'g \<times> (nat \<Rightarrow> oop)" where
  "drop_visit c y v =
     (case snd v y of
        None \<Rightarrow> v
      | Some r \<Rightarrow>
          if is_alive c (fst v) (Some r)
          then (let (g, r') = keep_alive c (fst v) (Some r) in (g, (snd v)(y := r')))
          else v)"

fun survivors :: "'g closures \<Rightarrow> nat list \<Rightarrow> 'g \<times> (nat \<Rightarrow> oop) \<Rightarrow> nat list" where
  "survivors c [] v = []"
| "survivors c (y # ys) v =
     (if kept c y v then y # survivors c ys v else survivors c ys (drop_visit c y v))"

fun drop_pass ::
  "'g closures \<Rightarrow> nat list \<Rightarrow> 'g \<times> (nat \<Rightarrow> oop) \<Rightarrow> 'g \<times> (nat \<Rightarrow> oop)" where
  "drop_pass c [] v = v"
| "drop_pass c (y # ys) v = drop_pass c ys (drop_visit c y v)"

definition marking :: "'g heap \<Rightarrow> 'g \<times> (nat \<Rightarrow> oop)" where
  "marking h = (gc h, Reference_referent h)"

definition same_fields :: "'g heap \<Rightarrow> 'g heap \<Rightarrow> bool" where
  "same_fields h h' =
     (Reference_next h' = Reference_next h
      \<and> reference_pending_list h' = reference_pending_list h
      \<and> SoftReference_clock h' = SoftReference_clock h)"


section \<open>Example machines\<close>

definition example_flags :: flags where
  "example_flags =
     \<lparr>ASSERT = True, PRODUCT = False, RegisterReferences = True,
      ParallelRefProcEnabled = True, ParallelRefProcBalancingEnabled = True,
      ReferencesPerThread = 1000, UseG1GC = True\<rparr>"

definition marked :: "nat set \<Rightarrow> oop \<Rightarrow> bool" where
  "marked g r = (case r of None \<Rightarrow> False | Some a \<Rightarrow> a \<in> g)"

definition mark :: "nat set \<Rightarrow> oop \<Rightarrow> nat set \<times> oop" where
  "mark g r = (case r of None \<Rightarrow> (g, r) | Some a \<Rightarrow> (insert a g, r))"

definition example_closures :: "nat set closures" where
  "example_closures =
     \<lparr>is_subject_to_discovery = (\<lambda>g obj. True),
      is_alive_non_header = Some marked,
      should_clear_reference = (\<lambda>obj clock. True),
      is_alive = marked,
      keep_alive = mark,
      complete_gc = (\<lambda>g. g),
      worker_id = 0,
      active_processor_count = 8\<rparr>"

definition bare_vm :: "nat set vm" where
  "bare_vm =
     \<lparr>discovery_is_concurrent = False, discovery_is_mt = False, discovering_refs = False,
      num_queues = 0, max_num_queues = 0, next_id = 0,
      discoveredSoftRefs = [], discoveredWeakRefs = [], discoveredFinalRefs = [],
      discoveredPhantomRefs = [], soft_ref_timestamp_clock = 0,
      heap = \<lparr>Reference_referent = (\<lambda>_. None), Reference_discovered = (\<lambda>_. None),
              Reference_next = (\<lambda>_. None), SoftReference_clock = 0,
              reference_pending_list = None, gc = {}\<rparr>\<rparr>"

definition example_vm :: "nat set vm" where
  "example_vm = ReferenceProcessor_ctor 4 4 True bare_vm"

definition example_discovering :: "nat set vm" where
  "example_discovering =
     example_vm\<lparr>discovering_refs := True,
       heap := (heap example_vm)\<lparr>Reference_referent := (\<lambda>_. None)(1 := Some 100)\<rparr>\<rparr>"

definition example_discovered :: "nat set vm" where
  "example_discovered =
     example_discovering\<lparr>
       discoveredWeakRefs := [\<lparr>head = Some 1, len = 1\<rparr>, \<lparr>head = None, len = 0\<rparr>,
                              \<lparr>head = None, len = 0\<rparr>, \<lparr>head = None, len = 0\<rparr>],
       heap := (heap example_discovering)\<lparr>Reference_discovered := (\<lambda>_. None)(1 := Some 1)\<rparr>\<rparr>"

definition example_referent_marked :: "nat set vm" where
  "example_referent_marked = example_discovered\<lparr>heap := (heap example_discovered)\<lparr>gc := {100}\<rparr>\<rparr>"


definition example_discovered_fields :: "nat \<Rightarrow> oop" where
  "example_discovered_fields =
     (\<lambda>_. None)(1 := Some 2, 2 := Some 3, 3 := Some 4, 4 := Some 5, 5 := Some 5,
                6 := Some 7, 7 := Some 7)"

definition example_queues :: "DiscoveredList list" where
  "example_queues =
     [\<lparr>head = Some 1, len = 5\<rparr>, \<lparr>head = None, len = 0\<rparr>, \<lparr>head = Some 6, len = 2\<rparr>]"

definition example_entries :: "nat list list" where
  "example_entries = [[1, 2, 3, 4, 5], [], [6, 7]]"

text \<open>
  A machine with two Final references on queue 0: the referent of reference 1 is not marked,
  the referent of reference 2 is. \<open>example_final_after\<close> is the machine after the first phase.
  \<open>example_keep_alive_heap\<close> is a heap with the same two references, neither referent marked,
  and the object 9 on the pending list.
\<close>

definition example_final_vm :: "nat set vm" where
  "example_final_vm =
     example_vm\<lparr>
       discoveredFinalRefs := [\<lparr>head = Some 1, len = 2\<rparr>, \<lparr>head = None, len = 0\<rparr>,
                               \<lparr>head = None, len = 0\<rparr>, \<lparr>head = None, len = 0\<rparr>],
       heap := (heap example_vm)\<lparr>
         Reference_referent := (\<lambda>_. None)(1 := Some 100, 2 := Some 200),
         Reference_discovered := (\<lambda>_. None)(1 := Some 2, 2 := Some 2),
         gc := {200}\<rparr>\<rparr>"

definition example_phase_times :: ReferenceProcessorPhaseTimes where
  "example_phase_times =
     \<lparr>ref_discovered = (\<lambda>_. 0)(REF_FINAL := 2), ref_dropped = (\<lambda>_. 0),
      phase_processing_is_mt = False\<rparr>"

definition example_final_after :: "nat set vm" where
  "example_final_after =
     example_final_vm\<lparr>
       discoveredFinalRefs := [\<lparr>head = Some 1, len = 1\<rparr>, \<lparr>head = None, len = 0\<rparr>,
                               \<lparr>head = None, len = 0\<rparr>, \<lparr>head = None, len = 0\<rparr>],
       heap := (heap example_final_vm)\<lparr>Reference_discovered :=
                 (\<lambda>_. None)(1 := Some 1)\<rparr>\<rparr>"

definition example_keep_alive_heap :: "nat set heap" where
  "example_keep_alive_heap =
     \<lparr>Reference_referent = (\<lambda>_. None)(1 := Some 100, 2 := Some 200),
      Reference_discovered = (\<lambda>_. None)(1 := Some 2, 2 := Some 2),
      Reference_next = (\<lambda>_. None), SoftReference_clock = 0,
      reference_pending_list = Some 9, gc = {}\<rparr>"




section \<open>Arithmetic of the machine types\<close>

lemma MIN3_min: "MIN3 a b c = min a (min b c)"
  by (simp add: MIN3_def MIN2_def min_def)

lemma MIN2_min: "MIN2 a b = min a b"
  by (simp add: MIN2_def min_def)

lemma size_t_add_small: "a + b \<le> SIZE_MAX \<Longrightarrow> size_t_add a b = a + b"
  by (simp add: size_t_add_def)

lemma size_t_sub_small:
  assumes "b \<le> a" "a \<le> SIZE_MAX"
  shows "size_t_sub a b = a - b"
proof -
  have 1: "b mod (SIZE_MAX + 1) = b" using assms by simp
  have 2: "a + (SIZE_MAX + 1) - b = (a - b) + (SIZE_MAX + 1)" using assms by simp
  have 3: "a - b < SIZE_MAX + 1" using assms by simp
  show ?thesis unfolding size_t_sub_def 1 2 using 3 by (simp only: mod_add_self2 mod_less)
qed

section \<open>Properties of the soft-reference clock\<close>

text \<open>
  C7. The soft-reference timestamp clock never goes backward: whatever the time source returns,
  the clock after \<^verbatim>\<open>update_soft_ref_master_clock\<close> is at least the clock before, and when the
  time source reports a time earlier than the stored clock the whole state is left as it was.
\<close>

theorem soft_ref_clock_monotone:
  "soft_ref_timestamp_clock s \<le>s soft_ref_timestamp_clock (update_soft_ref_master_clock t s)
   \<and> ((word_of_int (sint t sdiv NANOSECS_PER_MILLISEC) :: jlong) <s soft_ref_timestamp_clock s
        \<longrightarrow> update_soft_ref_master_clock t s = s)"
  by (auto simp: update_soft_ref_master_clock_def Let_def word_sle_eq word_sless_alt)

theorem soft_ref_clock_monotone_witness:
  "(word_of_int (sint (5000000 :: jlong) sdiv NANOSECS_PER_MILLISEC) :: jlong)
     <s soft_ref_timestamp_clock (example_vm\<lparr>soft_ref_timestamp_clock := 9\<rparr>)
   \<and> update_soft_ref_master_clock 5000000 (example_vm\<lparr>soft_ref_timestamp_clock := 9\<rparr>)
       = example_vm\<lparr>soft_ref_timestamp_clock := 9\<rparr>"
proof -
  have "(word_of_int (sint (5000000 :: jlong) sdiv NANOSECS_PER_MILLISEC) :: jlong)
          <s soft_ref_timestamp_clock (example_vm\<lparr>soft_ref_timestamp_clock := 9\<rparr>)"
    by (simp add: NANOSECS_PER_MILLISEC_def word_sless_alt)
  then show ?thesis
    using soft_ref_clock_monotone [of "example_vm\<lparr>soft_ref_timestamp_clock := 9\<rparr>" 5000000]
    by blast
qed

section \<open>Properties of the MT-degree adjuster\<close>

lemma ergo_proc_thread_count_spec:
  assumes "0 < max_threads" "max_threads < 2 ^ 32" "ReferencesPerThread f \<noteq> 0"
    "ref_count div ReferencesPerThread f < SIZE_MAX" "0 \<le> procs" "procs < 2 ^ 31"
  shows "ergo_proc_thread_count f procs ref_count max_threads phase
           = Inr (spec_mt_degree f procs phase max_threads ref_count)"
proof -
  have a: "size_t_add 1 (ref_count div ReferencesPerThread f)
             = 1 + ref_count div ReferencesPerThread f"
    using assms(4) by (intro size_t_add_small) simp
  have "procs < int SIZE_MAX + 1" using assms(6) by (simp add: SIZE_MAX_def)
  then have b: "procs mod (int SIZE_MAX + 1) = procs" using assms(5) by simp
  have "min (1 + ref_count div ReferencesPerThread f) (min max_threads (nat procs))
          \<le> max_threads"
    by simp
  then have c: "min (1 + ref_count div ReferencesPerThread f) (min max_threads (nat procs))
                  mod 2 ^ 32
                = min (1 + ref_count div ReferencesPerThread f) (min max_threads (nat procs))"
    using assms(2) by (intro mod_less) (rule le_less_trans)
  show ?thesis
    unfolding ergo_proc_thread_count_def use_max_threads_def spec_mt_degree_def Let_def
      a b MIN3_min c
    using assms(1,3) by (simp del: power_numeral)
qed

text \<open>
  C8. For every phase and every discovered-reference count, constructing the MT-degree adjuster
  installs as the active degree the minimum of \<open>1 + count / threshold\<close>, the caller-supplied
  maximum and the processor count, except in the KeepAliveFinal phase, where it installs the
  caller-supplied maximum whatever the count; destroying the adjuster restores the degree that
  was active before. The threshold \<^verbatim>\<open>ReferencesPerThread\<close> is not zero, the quotient plus one
  fits a \<^verbatim>\<open>size_t\<close>, the processor count is a non-negative \<^verbatim>\<open>int\<close>, the maximum is a positive
  \<^verbatim>\<open>uint\<close>, and both degrees respect the processor's \<^verbatim>\<open>_max_num_queues\<close>, as
  \<^verbatim>\<open>set_active_mt_degree\<close> asserts.
\<close>

theorem mt_degree_adjuster_installs_and_restores:
  assumes "0 < max_threads" "max_threads < 2 ^ 32" "ReferencesPerThread f \<noteq> 0"
    "ref_count div ReferencesPerThread f < SIZE_MAX" "0 \<le> procs" "procs < 2 ^ 31"
    "num_queues s \<le> max_num_queues s"
    "spec_mt_degree f procs phase max_threads ref_count \<le> max_num_queues s"
  shows "\<exists>a s'. RefProcMTDegreeAdjuster_ctor f procs phase max_threads ref_count s = Inr (a, s')
           \<and> num_queues s' = spec_mt_degree f procs phase max_threads ref_count
           \<and> (\<exists>s''. RefProcMTDegreeAdjuster_dtor f a s' = Inr s''
                  \<and> num_queues s'' = num_queues s)"
  using assms(7,8)
  by (simp add: RefProcMTDegreeAdjuster_ctor_def RefProcMTDegreeAdjuster_dtor_def
      ergo_proc_thread_count_spec[OF assms(1-6)] set_active_mt_degree_def)

theorem mt_degree_adjuster_installs_and_restores_witness:
  "\<exists>a s'. RefProcMTDegreeAdjuster_ctor example_flags 8 SoftWeakFinalRefsPhase 4 2500 example_vm
             = Inr (a, s')
         \<and> num_queues s' = 3
         \<and> (\<exists>s''. RefProcMTDegreeAdjuster_dtor example_flags a s' = Inr s''
                \<and> num_queues s'' = 4)"
proof -
  have q: "num_queues example_vm = 4" "max_num_queues example_vm = 4"
    by (simp_all add: example_vm_def ReferenceProcessor_ctor_def MAX2_def Let_def)
  have d: "spec_mt_degree example_flags 8 SoftWeakFinalRefsPhase 4 2500 = 3"
    by (simp add: spec_mt_degree_def example_flags_def)
  have r: "ReferencesPerThread example_flags = 1000"
    by (simp add: example_flags_def)
  show ?thesis
    using mt_degree_adjuster_installs_and_restores
            [of 4 example_flags 2500 8 example_vm SoftWeakFinalRefsPhase]
    unfolding q d r by (simp add: SIZE_MAX_def)
qed

section \<open>The example machines, evaluated\<close>

lemma example_vm_eq:
  "example_vm =
     \<lparr>discovery_is_concurrent = True, discovery_is_mt = True, discovering_refs = False,
      num_queues = 4, max_num_queues = 4, next_id = 0,
      discoveredSoftRefs = [\<lparr>head = None, len = 0\<rparr>, \<lparr>head = None, len = 0\<rparr>,
                              \<lparr>head = None, len = 0\<rparr>, \<lparr>head = None, len = 0\<rparr>],
      discoveredWeakRefs = [\<lparr>head = None, len = 0\<rparr>, \<lparr>head = None, len = 0\<rparr>,
                              \<lparr>head = None, len = 0\<rparr>, \<lparr>head = None, len = 0\<rparr>],
      discoveredFinalRefs = [\<lparr>head = None, len = 0\<rparr>, \<lparr>head = None, len = 0\<rparr>,
                              \<lparr>head = None, len = 0\<rparr>, \<lparr>head = None, len = 0\<rparr>],
      discoveredPhantomRefs = [\<lparr>head = None, len = 0\<rparr>, \<lparr>head = None, len = 0\<rparr>,
                              \<lparr>head = None, len = 0\<rparr>, \<lparr>head = None, len = 0\<rparr>],
      soft_ref_timestamp_clock = 0,
      heap = \<lparr>Reference_referent = (\<lambda>_. None), Reference_discovered = (\<lambda>_. None),
              Reference_next = (\<lambda>_. None), SoftReference_clock = 0,
              reference_pending_list = None, gc = {}\<rparr>\<rparr>"
  by (simp add: example_vm_def bare_vm_def ReferenceProcessor_ctor_def MAX2_def Let_def
      numeral_eq_Suc)

lemma example_vm_not_discovering:
  "discovering_refs example_vm = False"
  by (simp add: example_vm_def ReferenceProcessor_ctor_def Let_def)

section \<open>Properties of discovery\<close>

lemma discover_not_discovering:
  "\<not> discovering_refs s \<Longrightarrow> discover_reference f c obj rt s = Inr (False, s)"
  by (simp add: discover_reference_def)

lemma enable_nested_assert:
  "discovering_refs s \<Longrightarrow> ASSERT f \<Longrightarrow> enable_discovery f s = Inl (AssertFailed ''nested call?'')"
  by (simp add: enable_discovery_def)

lemma enable_nested_no_assert:
  "discovering_refs s \<Longrightarrow> \<not> ASSERT f \<Longrightarrow> enable_discovery f s = Inr s"
  by (simp add: enable_discovery_def)

text \<open>
  C9, as the code has it. Calling \<^verbatim>\<open>discover_reference\<close> outside a discovery window is not
  fatal: it returns "not discovered" and leaves the state as it was. Calling
  \<^verbatim>\<open>enable_discovery\<close> while discovery is already enabled fails the assertion "nested call?"
  in a build that compiles assertions, and leaves discovery enabled in a build that does not.
\<close>

theorem discovery_preconditions:
  "(\<not> discovering_refs s \<longrightarrow> discover_reference f c obj rt s = Inr (False, s))
   \<and> (discovering_refs s' \<and> ASSERT f \<longrightarrow>
        enable_discovery f s' = Inl (AssertFailed ''nested call?''))
   \<and> (discovering_refs s' \<and> \<not> ASSERT f' \<longrightarrow> enable_discovery f' s' = Inr s')"
  by (simp add: discover_not_discovering enable_nested_assert enable_nested_no_assert)

theorem discovery_preconditions_witness:
  "\<not> discovering_refs example_vm
   \<and> discover_reference example_flags example_closures 1 REF_WEAK example_vm
       = Inr (False, example_vm)
   \<and> discovering_refs (example_vm\<lparr>discovering_refs := True\<rparr>) \<and> ASSERT example_flags
   \<and> enable_discovery example_flags (example_vm\<lparr>discovering_refs := True\<rparr>)
       = Inl (AssertFailed ''nested call?'')
   \<and> \<not> ASSERT (example_flags\<lparr>ASSERT := False\<rparr>)
   \<and> enable_discovery (example_flags\<lparr>ASSERT := False\<rparr>)
        (example_vm\<lparr>discovering_refs := True\<rparr>)
       = Inr (example_vm\<lparr>discovering_refs := True\<rparr>)"
  using discovery_preconditions
          [of example_vm example_flags example_closures 1 REF_WEAK
              "example_vm\<lparr>discovering_refs := True\<rparr>" "example_flags\<lparr>ASSERT := False\<rparr>"]
  by (simp add: example_vm_not_discovering example_flags_def)

text \<open>
  C9, as stated, fails: on a processor that is not discovering, \<^verbatim>\<open>discover_reference\<close> returns
  "not discovered" in a build with assertions, and no fault.
\<close>

theorem discover_outside_window_counterexample:
  "\<not> discovering_refs example_vm
   \<and> discover_reference example_flags example_closures 1 REF_WEAK example_vm
       = Inr (False, example_vm)"
  by (simp add: example_vm_not_discovering discover_reference_def)

lemma verify_referent_concurrent:
  "(ASSERT f \<longrightarrow> discovery_is_concurrent s) \<Longrightarrow> verify_referent f obj s = Inr ()"
  by (auto simp: verify_referent_def)

lemma discover_again_unchanged:
  assumes "Reference_discovered (heap s) obj \<noteq> None"
    and "discover_reference f c obj rt s = Inr (b, s')"
  shows "s' = s"
  using assms
  by (auto simp: discover_reference_def split: if_splits option.splits sum.splits bool.splits)

lemma discover_again_success:
  assumes "Reference_discovered (heap s) obj \<noteq> None"
    and "\<not> rejected_before_lookup f c obj rt s"
    and "ASSERT f \<longrightarrow> UseG1GC f \<and> discovery_is_concurrent s"
  shows "discover_reference f c obj rt s = Inr (True, s)"
proof -
  have v: "verify_referent f obj s = Inr ()"
    using assms(3) by (intro verify_referent_concurrent) simp
  show ?thesis
    using assms
    by (auto simp: discover_reference_def rejected_before_lookup_def v split: option.splits)
qed

lemma cmpxchg_loses:
  assumes "discovery_is_mt s" "Reference_discovered (heap s) obj \<noteq> None"
  shows "set_discovered_link f obj nd s = Inr (False, s)"
  using assms
  by (auto simp: set_discovered_link_def set_discovered_link_mt_def oop_atomic_cmpxchg_def Let_def)

lemma add_again_mt_unchanged:
  assumes "discovery_is_mt s" "Reference_discovered (heap s) obj \<noteq> None"
    "lists_of rt s = Inr ls" "idx < length ls"
  shows "add_to_discovered_list f rt idx obj s = Inr s"
  using assms(3,4)
  by (simp add: add_to_discovered_list_def cmpxchg_loses[OF assms(1,2)] Let_def)

text \<open>
  C3, as the code has it. For every reference object whose discovered field is already
  non-null, \<^verbatim>\<open>discover_reference\<close> adds no second entry: whatever it returns, the state is the
  one it was called in. It returns success when none of the guards before the look-up of the
  discovered field rejects the call and, in a build with assertions, the collector is G1 with
  concurrent discovery (the two assertions on that path). In multi-threaded discovery the
  compare-and-exchange against null fails on such an object and \<^verbatim>\<open>add_to_discovered_list\<close>
  leaves every list as it was.
\<close>

theorem discover_reference_idempotent:
  "(Reference_discovered (heap s) obj \<noteq> None \<longrightarrow>
      (\<forall>b s'. discover_reference f c obj rt s = Inr (b, s') \<longrightarrow> s' = s))
   \<and> (Reference_discovered (heap s) obj \<noteq> None \<and> \<not> rejected_before_lookup f c obj rt s
        \<and> (ASSERT f \<longrightarrow> UseG1GC f \<and> discovery_is_concurrent s)
      \<longrightarrow> discover_reference f c obj rt s = Inr (True, s))
   \<and> (discovery_is_mt s \<and> Reference_discovered (heap s) obj \<noteq> None
        \<and> lists_of rt s = Inr ls \<and> idx < length ls
      \<longrightarrow> set_discovered_link f obj nd s = Inr (False, s)
          \<and> add_to_discovered_list f rt idx obj s = Inr s)"
proof (intro conjI impI allI)
  fix b s'
  assume "Reference_discovered (heap s) obj \<noteq> None"
    and "discover_reference f c obj rt s = Inr (b, s')"
  then show "s' = s" by (rule discover_again_unchanged)
next
  assume "Reference_discovered (heap s) obj \<noteq> None \<and> \<not> rejected_before_lookup f c obj rt s
        \<and> (ASSERT f \<longrightarrow> UseG1GC f \<and> discovery_is_concurrent s)"
  then show "discover_reference f c obj rt s = Inr (True, s)"
    by (intro discover_again_success) simp_all
next
  assume a: "discovery_is_mt s \<and> Reference_discovered (heap s) obj \<noteq> None
        \<and> lists_of rt s = Inr ls \<and> idx < length ls"
  then show "set_discovered_link f obj nd s = Inr (False, s)"
    by (intro cmpxchg_loses) simp_all
  from a show "add_to_discovered_list f rt idx obj s = Inr s"
    by (intro add_again_mt_unchanged[where ls = ls]) simp_all
qed

lemma first_discovery:
  "discover_reference example_flags example_closures 1 REF_WEAK example_discovering
     = Inr (True, example_discovered)"
  by (simp add: discover_reference_def example_discovering_def example_discovered_def
      example_vm_eq example_flags_def example_closures_def marked_def verify_referent_def
      get_discovered_list_def add_to_discovered_list_def set_discovered_link_def
      set_discovered_link_mt_def oop_atomic_cmpxchg_def add_as_head_def inc_length_def
      size_t_add_def SIZE_MAX_def Let_def)

theorem discover_reference_idempotent_witness:
  "Reference_discovered (heap example_discovered) 1 \<noteq> None
   \<and> discover_reference example_flags example_closures 1 REF_WEAK example_discovered
       = Inr (True, example_discovered)
   \<and> set_discovered_link example_flags 1 (Some 1) example_discovered
       = Inr (False, example_discovered)
   \<and> add_to_discovered_list example_flags REF_WEAK 2 1 example_discovered
       = Inr example_discovered"
proof -
  have d: "Reference_discovered (heap example_discovered) 1 \<noteq> None"
    by (simp add: example_discovered_def)
  have r: "\<not> rejected_before_lookup example_flags example_closures 1 REF_WEAK example_discovered"
    by (simp add: rejected_before_lookup_def example_discovered_def example_discovering_def
        example_vm_eq example_flags_def example_closures_def marked_def)
  have a: "ASSERT example_flags \<longrightarrow>
             UseG1GC example_flags \<and> discovery_is_concurrent example_discovered"
    by (simp add: example_discovered_def example_discovering_def example_vm_eq
        example_flags_def)
  have m: "discovery_is_mt example_discovered"
    by (simp add: example_discovered_def example_discovering_def example_vm_eq)
  have l: "lists_of REF_WEAK example_discovered = Inr (discoveredWeakRefs example_discovered)"
    "2 < length (discoveredWeakRefs example_discovered)"
    by (simp_all add: example_discovered_def)
  show ?thesis
    using discover_reference_idempotent
            [of example_discovered 1 example_flags example_closures REF_WEAK
                "discoveredWeakRefs example_discovered" 2 "Some 1"]
      d r a m l
    by blast
qed

text \<open>
  C3, as stated, fails: an object discovered earlier in the cycle whose referent has since been
  marked reachable is rejected by the liveness guard, and the second call returns "not
  discovered".
\<close>

theorem rediscovery_counterexample:
  "Reference_discovered (heap example_referent_marked) 1 \<noteq> None
   \<and> discover_reference example_flags example_closures 1 REF_WEAK example_referent_marked
       = Inr (False, example_referent_marked)"
  by (simp add: discover_reference_def example_referent_marked_def example_discovering_def
      example_discovered_def example_vm_eq example_flags_def example_closures_def marked_def
      verify_referent_def)

section \<open>Properties of the phases\<close>

text \<open>
  C10. A phase whose recorded discovered counts are all zero returns at once: the machine and
  the phase times it returns are the ones it was given, so no queue was balanced, no degree was
  installed, no task was run, and every discovered list and the pending list are unchanged.
\<close>

theorem phase_without_references_is_skipped:
  "(ref_discovered pt REF_SOFT = 0 \<and> ref_discovered pt REF_WEAK = 0
      \<and> ref_discovered pt REF_FINAL = 0
      \<longrightarrow> process_soft_weak_final_refs f c workers (s, pt) = Some (Inr (s, pt)))
   \<and> (ref_discovered pt REF_FINAL = 0
      \<longrightarrow> process_final_keep_alive f c workers (s, pt) = Some (Inr (s, pt)))
   \<and> (ref_discovered pt REF_PHANTOM = 0
      \<longrightarrow> process_phantom_refs f c workers (s, pt) = Some (Inr (s, pt)))"
  by (simp add: process_soft_weak_final_refs_def process_final_keep_alive_def
      process_phantom_refs_def size_t_add_def)

theorem phase_without_references_is_skipped_witness:
  "ref_discovered \<lparr>ref_discovered = (\<lambda>_. 0), ref_dropped = (\<lambda>_. 0),
                    phase_processing_is_mt = True\<rparr> REF_SOFT = 0
   \<and> process_soft_weak_final_refs example_flags example_closures (Some 4)
         (example_vm, \<lparr>ref_discovered = (\<lambda>_. 0), ref_dropped = (\<lambda>_. 0),
                        phase_processing_is_mt = True\<rparr>)
       = Some (Inr (example_vm, \<lparr>ref_discovered = (\<lambda>_. 0), ref_dropped = (\<lambda>_. 0),
                                  phase_processing_is_mt = True\<rparr>))
   \<and> process_final_keep_alive example_flags example_closures (Some 4)
         (example_vm, \<lparr>ref_discovered = (\<lambda>_. 0), ref_dropped = (\<lambda>_. 0),
                        phase_processing_is_mt = True\<rparr>)
       = Some (Inr (example_vm, \<lparr>ref_discovered = (\<lambda>_. 0), ref_dropped = (\<lambda>_. 0),
                                  phase_processing_is_mt = True\<rparr>))
   \<and> process_phantom_refs example_flags example_closures (Some 4)
         (example_vm, \<lparr>ref_discovered = (\<lambda>_. 0), ref_dropped = (\<lambda>_. 0),
                        phase_processing_is_mt = True\<rparr>)
       = Some (Inr (example_vm, \<lparr>ref_discovered = (\<lambda>_. 0), ref_dropped = (\<lambda>_. 0),
                                  phase_processing_is_mt = True\<rparr>))"
  using phase_without_references_is_skipped
          [of "\<lparr>ref_discovered = (\<lambda>_. 0), ref_dropped = (\<lambda>_. 0),
                phase_processing_is_mt = True\<rparr>"
              example_flags example_closures "Some 4" example_vm]
  by simp

section \<open>Linked lists in the discovered fields\<close>

lemma chain_frame: "a \<notin> set xs \<Longrightarrow> chain (d(a := v)) xs t = chain d xs t"
  by (induction d xs t rule: chain.induct) auto

lemma chain_Cons:
  "chain d (x # xs) t = (d x = (case xs of [] \<Rightarrow> t | y # _ \<Rightarrow> Some y) \<and> chain d xs t)"
  by (cases xs) auto

lemma chain_append:
  "chain d (xs @ ys) t =
     (if ys = [] then chain d xs t else chain d xs (Some (hd ys)) \<and> chain d ys t)"
proof (induction xs)
  case Nil
  then show ?case by simp
next
  case (Cons x xs)
  show ?case
  proof (cases xs)
    case Nil
    then show ?thesis by (cases ys) auto
  next
    case (Cons y r)
    with Cons.IH show ?thesis by auto
  qed
qed

lemma chain_take_drop:
  assumes "chain d xs t" "k < length xs"
  shows "chain d (take k xs) (Some (xs ! k)) \<and> chain d (drop k xs) t"
proof -
  have "chain d (take k xs @ drop k xs) t" using assms(1) by simp
  moreover have "drop k xs \<noteq> []" using assms(2) by simp
  moreover have "hd (drop k xs) = xs ! k" using assms(2) by (simp add: hd_drop_conv_nth)
  ultimately show ?thesis by (simp only: chain_append if_False)
qed

lemma chain_retarget:
  assumes "chain d xs t" "xs \<noteq> []" "distinct xs"
  shows "chain (d(last xs := t')) xs t'"
  using assms
proof (induction d xs t rule: chain.induct)
  case (1 d t)
  then show ?case by simp
next
  case (2 d x t)
  then show ?case by simp
next
  case (3 d x y r t)
  then have "x \<noteq> last (y # r)" by auto
  with 3 show ?case by auto
qed

lemma find_split_chain:
  assumes "chain d xs t" "0 < k" "k \<le> length xs"
  shows "find_split d k mt (Some (hd xs))
           = Inr (Some (xs ! (k - 1)), if k < length xs then Some (xs ! k) else t)"
  using assms
proof (induction k arbitrary: xs mt)
  case 0
  then show ?case by simp
next
  case (Suc j)
  then obtain x r where xs: "xs = x # r" by (cases xs) auto
  show ?case
  proof (cases j)
    case 0
    with Suc.prems xs show ?thesis by (cases r) auto
  next
    case (Suc i)
    with Suc.prems xs obtain y r' where r: "r = y # r'" by (cases r) auto
    have c: "chain d r t" "d x = Some (hd r)" using Suc.prems(1) xs r by auto
    have "find_split d j (Some x) (Some (hd r))
            = Inr (Some (r ! (j - 1)), if j < length r then Some (r ! j) else t)"
      using c(1) Suc.prems(3) xs Suc by (intro Suc.IH) auto
    then show ?thesis using xs c(2) Suc by simp
  qed
qed

lemma distinct_concat_nth:
  "distinct (concat xss) \<Longrightarrow> i < length xss \<Longrightarrow> distinct (xss ! i)"
proof (induction xss arbitrary: i)
  case Nil
  then show ?case by simp
next
  case (Cons a xss)
  then show ?case by (cases i) auto
qed

lemma distinct_concat_disjoint_lt:
  "distinct (concat xss) \<Longrightarrow> i < j \<Longrightarrow> j < length xss \<Longrightarrow> set (xss ! i) \<inter> set (xss ! j) = {}"
proof (induction xss arbitrary: i j)
  case Nil
  then show ?case by simp
next
  case (Cons a xss)
  show ?case
  proof (cases i)
    case 0
    with Cons.prems obtain j' where j: "j = Suc j'" "j' < length xss" by (cases j) auto
    then have "xss ! j' \<in> set xss" by simp
    then have "set (xss ! j') \<subseteq> set (concat xss)" by auto
    moreover have "set a \<inter> set (concat xss) = {}" using Cons.prems(1) by simp
    ultimately show ?thesis using 0 j by auto
  next
    case (Suc i')
    with Cons.prems obtain j' where j: "j = Suc j'" "i' < j'" "j' < length xss" by (cases j) auto
    with Cons.IH[of i' j'] Cons.prems(1) Suc show ?thesis by simp
  qed
qed

lemma distinct_concat_disjoint:
  assumes "distinct (concat xss)" "i \<noteq> j" "i < length xss" "j < length xss"
  shows "set (xss ! i) \<inter> set (xss ! j) = {}"
proof (cases "i < j")
  case True
  with assms show ?thesis by (intro distinct_concat_disjoint_lt)
next
  case False
  with assms have "j < i" by simp
  with assms have "set (xss ! j) \<inter> set (xss ! i) = {}" by (intro distinct_concat_disjoint_lt)
  then show ?thesis by auto
qed

lemma mset_concat_update:
  "i < length xss \<Longrightarrow>
     mset (concat (xss[i := y])) + mset (xss ! i) = mset (concat xss) + mset y"
proof (induction xss arbitrary: i)
  case Nil
  then show ?case by simp
next
  case (Cons a xss)
  show ?case
  proof (cases i)
    case 0
    then show ?thesis by simp
  next
    case (Suc i')
    with Cons.prems have "i' < length xss" by simp
    from Cons.IH[OF this] Suc show ?thesis by (simp add: ac_simps)
  qed
qed

lemma multiset_move_cancel:
  fixes X :: "'a multiset"
  assumes "C1 + T = C + (A + T)" "X + F = C1 + B" "A + B = F"
  shows "X = C"
proof -
  have "C1 + T = (C + A) + T" using assms(1) by (simp only: add.assoc)
  then have "C1 = C + A" by (simp only: add_right_cancel)
  then have "X + F = C + (A + B)" using assms(2) by (simp only: add.assoc)
  then have "X + F = C + F" by (simp only: assms(3))
  then show ?thesis by (simp only: add_right_cancel)
qed

lemma mset_concat_move:
  assumes "from_idx < length xss" "to_idx < length xss" "from_idx \<noteq> to_idx"
  shows "mset (concat (xss[to_idx := take k (xss ! from_idx) @ xss ! to_idx,
                           from_idx := drop k (xss ! from_idx)]))
           = mset (concat xss)"
proof -
  let ?F = "xss ! from_idx" and ?T = "xss ! to_idx"
  let ?x1 = "xss[to_idx := take k ?F @ ?T]"
  have 1: "mset (concat ?x1) + mset ?T = mset (concat xss) + (mset (take k ?F) + mset ?T)"
    using mset_concat_update[OF assms(2), of "take k ?F @ ?T"] by (simp only: mset_append)
  have f1: "?x1 ! from_idx = ?F" using assms by simp
  have "mset (concat (?x1[from_idx := drop k ?F])) + mset (?x1 ! from_idx)
          = mset (concat ?x1) + mset (drop k ?F)"
    using assms(1) by (intro mset_concat_update) simp
  then have 2: "mset (concat (?x1[from_idx := drop k ?F])) + mset ?F
          = mset (concat ?x1) + mset (drop k ?F)"
    by (simp only: f1)
  have 3: "mset (take k ?F) + mset (drop k ?F) = mset ?F"
    by (simp flip: mset_append)
  show ?thesis by (rule multiset_move_cancel[OF 1 2 3])
qed

lemma is_list_frame:
  "a \<notin> set xs \<Longrightarrow> is_list (d(a := v)) l xs = is_list d l xs"
  by (simp add: is_list_def chain_frame)

lemma queues_ok_nth:
  "queues_ok d ls xss \<Longrightarrow> i < length ls \<Longrightarrow> is_list d (ls ! i) (xss ! i)"
  by (simp add: queues_ok_def list_all2_conv_all_nth)

lemma queues_ok_length: "queues_ok d ls xss \<Longrightarrow> length xss = length ls"
  by (auto simp: queues_ok_def dest: list_all2_lengthD)

lemma move_chain_correct:
  assumes ok: "queues_ok d ls xss"
    and idx: "from_idx < length ls" "to_idx < length ls" "from_idx \<noteq> to_idx"
    and k: "0 < k" "k \<le> length (xss ! from_idx)"
    and bound: "length (xss ! to_idx) + k \<le> SIZE_MAX" "length (xss ! from_idx) \<le> SIZE_MAX"
  shows "\<exists>d' ls'. move_chain from_idx to_idx k (d, ls) = Inr (d', ls')
           \<and> length ls' = length ls
           \<and> queues_ok d' ls'
                (xss[to_idx := take k (xss ! from_idx) @ xss ! to_idx,
                     from_idx := drop k (xss ! from_idx)])
           \<and> (\<forall>a. a \<notin> set (concat xss) \<longrightarrow> d' a = d a)"
proof -
  let ?F = "xss ! from_idx" and ?T = "xss ! to_idx"
  let ?A = "take k ?F" and ?B = "drop k ?F"
  let ?xss' = "xss[to_idx := ?A @ ?T, from_idx := ?B]"
  have lx: "length xss = length ls" using ok by (rule queues_ok_length)
  have dc: "distinct (concat xss)" using ok by (simp add: queues_ok_def)
  have lF: "is_list d (ls ! from_idx) ?F" using ok idx(1) by (rule queues_ok_nth)
  have lT: "is_list d (ls ! to_idx) ?T" using ok idx(2) by (rule queues_ok_nth)
  have dF: "distinct ?F" using dc idx(1) lx by (intro distinct_concat_nth) simp_all
  have Fne: "?F \<noteq> []" using k by auto
  have Ane: "?A \<noteq> []" using k by auto
  have lenA: "length ?A = k" using k by simp
  have hdF: "head (ls ! from_idx) = Some (hd ?F)"
    using lF Fne by (cases ?F) (auto simp: is_list_def)
  have chF: "chain d ?F (Some (last ?F))" using lF by (simp add: is_list_def)
  define mt where "mt = ?F ! (k - 1)"
  define nh where "nh = (if k < length ?F then Some (?F ! k) else Some (last ?F))"
  have fs: "find_split d k (head (ls ! from_idx)) (head (ls ! from_idx)) = Inr (Some mt, nh)"
    unfolding hdF mt_def nh_def using chF k by (rule find_split_chain)
  have "last ?A = ?A ! (length ?A - 1)" using Ane by (rule last_conv_nth)
  also have "\<dots> = ?F ! (k - 1)" using k by (simp add: lenA)
  finally have mt_last: "mt = last ?A" by (simp add: mt_def)
  have mt_in_A: "mt \<in> set ?A" using mt_last Ane by simp
  have mt_in_F: "mt \<in> set ?F" using mt_in_A by (rule in_set_takeD)
  have AB_disj: "set ?A \<inter> set ?B = {}"
    using dF by (metis append_take_drop_id distinct_append)
  have mt_notin_B: "mt \<notin> set ?B" using mt_in_A AB_disj by auto
  have mt_notin: "\<And>j. j < length ls \<Longrightarrow> j \<noteq> from_idx \<Longrightarrow> mt \<notin> set (xss ! j)"
  proof -
    fix j assume j: "j < length ls" "j \<noteq> from_idx"
    have "set ?F \<inter> set (xss ! j) = {}"
      using dc j idx(1) lx by (intro distinct_concat_disjoint) auto
    then show "mt \<notin> set (xss ! j)" using mt_in_F by auto
  qed
  have tail_eq: "(Some mt = nh) = (k = length ?F)"
  proof (cases "k < length ?F")
    case True
    then have "?F ! (k - 1) \<noteq> ?F ! k"
      using dF k by (simp add: nth_eq_iff_index_eq)
    with True show ?thesis by (simp add: mt_def nh_def)
  next
    case False
    then have "k = length ?F" using k by simp
    then show ?thesis using Fne by (simp add: mt_def nh_def last_conv_nth)
  qed
  have chA: "\<exists>t0. chain d ?A t0"
  proof (cases "k < length ?F")
    case True
    with chF show ?thesis using chain_take_drop by blast
  next
    case False
    then have "?A = ?F" using k by simp
    with chF show ?thesis by metis
  qed
  have chB: "chain d ?B (Some (last ?B))"
  proof (cases "k < length ?F")
    case True
    then have "last ?B = last ?F" by simp
    with chF True show ?thesis using chain_take_drop by metis
  next
    case False
    then show ?thesis by simp
  qed
  define tgt where "tgt = (if head (ls ! to_idx) = None then Some mt else head (ls ! to_idx))"
  define d1 where "d1 = d(mt := tgt)"
  define l1 where "l1 = ls[to_idx := inc_length k ((ls ! to_idx)\<lparr>head := head (ls ! from_idx)\<rparr>)]"
  define l2 where "l2 = l1[from_idx := dec_length k
                          ((l1 ! from_idx)\<lparr>head := (if Some mt = nh then None else nh)\<rparr>)]"
  have mc: "move_chain from_idx to_idx k (d, ls) = Inr (d1, l2)"
    by (cases "head (ls ! to_idx)")
      (simp_all add: move_chain_def fs d1_def tgt_def l1_def l2_def Let_def)
  have l1_from: "l1 ! from_idx = ls ! from_idx" using idx by (simp add: l1_def)
  have l2_from: "l2 ! from_idx
                   = dec_length k ((ls ! from_idx)\<lparr>head := (if Some mt = nh then None else nh)\<rparr>)"
    using idx by (simp add: l2_def l1_def)
  have l2_to: "l2 ! to_idx = inc_length k ((ls ! to_idx)\<lparr>head := head (ls ! from_idx)\<rparr>)"
    using idx by (simp add: l2_def l1_def)
  have l2_other: "\<And>j. j \<noteq> from_idx \<Longrightarrow> j \<noteq> to_idx \<Longrightarrow> l2 ! j = ls ! j"
    by (simp add: l2_def l1_def)
  have len2: "length l2 = length ls" by (simp add: l2_def l1_def)
  have chA1: "chain d1 ?A tgt"
    unfolding d1_def mt_last using chA dF Ane
    by (auto intro!: chain_retarget distinct_take)
  have T_to: "is_list d1 (l2 ! to_idx) (?A @ ?T)"
  proof -
    have lenT: "len (ls ! to_idx) = length ?T" using lT by (simp add: is_list_def)
    have 1: "len (l2 ! to_idx) = length (?A @ ?T)"
      using bound(1) lenA
      by (simp add: l2_to inc_length_def lenT size_t_add_small)
    have hdA: "hd ?A = hd ?F" using k by (simp add: hd_take)
    have 2: "head (l2 ! to_idx) = (case ?A @ ?T of [] \<Rightarrow> None | x # _ \<Rightarrow> Some x)"
    proof (cases ?A)
      case Nil
      with Ane show ?thesis by simp
    next
      case (Cons a r)
      then have "hd ?F = a" using hdA by simp
      with Cons hdF show ?thesis by (simp add: l2_to inc_length_def)
    qed
    have mtT: "mt \<notin> set ?T" using mt_notin idx by simp
    have 3: "chain d1 (?A @ ?T) (Some (last (?A @ ?T)))"
    proof (cases "?T = []")
      case True
      then have "head (ls ! to_idx) = None" using lT by (simp add: is_list_def)
      then have "tgt = Some (last ?A)" by (simp add: tgt_def mt_last)
      with chA1 True show ?thesis by simp
    next
      case False
      then have "head (ls ! to_idx) = Some (hd ?T)" using lT by (cases ?T) (auto simp: is_list_def)
      then have t: "tgt = Some (hd ?T)" by (simp add: tgt_def)
      have "chain d ?T (Some (last ?T))" using lT by (simp add: is_list_def)
      then have "chain d1 ?T (Some (last ?T))" using mtT by (simp add: d1_def chain_frame)
      with chA1 t False show ?thesis by (simp add: chain_append)
    qed
    from 1 2 3 show ?thesis unfolding is_list_def by blast
  qed
  have T_from: "is_list d1 (l2 ! from_idx) ?B"
  proof -
    have lenF: "len (ls ! from_idx) = length ?F" using lF by (simp add: is_list_def)
    have 1: "len (l2 ! from_idx) = length ?B"
      using bound(2) k
      by (simp add: l2_from dec_length_def lenF size_t_sub_small)
    have 2: "head (l2 ! from_idx) = (case ?B of [] \<Rightarrow> None | x # _ \<Rightarrow> Some x)"
    proof (cases "k < length ?F")
      case True
      then have "?B = ?F ! k # drop (Suc k) ?F" by (simp add: Cons_nth_drop_Suc)
      moreover have "head (l2 ! from_idx) = Some (?F ! k)"
        using True tail_eq by (simp add: l2_from dec_length_def nh_def)
      ultimately show ?thesis by simp
    next
      case False
      then have "?B = []" by simp
      moreover have "head (l2 ! from_idx) = None"
        using False k tail_eq by (simp add: l2_from dec_length_def)
      ultimately show ?thesis by simp
    qed
    have 3: "chain d1 ?B (Some (last ?B))"
      using chB mt_notin_B by (simp add: d1_def chain_frame)
    from 1 2 3 show ?thesis unfolding is_list_def by blast
  qed
  have T_other: "\<And>j. j < length ls \<Longrightarrow> j \<noteq> from_idx \<Longrightarrow> j \<noteq> to_idx
                   \<Longrightarrow> is_list d1 (l2 ! j) (xss ! j)"
  proof -
    fix j assume j: "j < length ls" "j \<noteq> from_idx" "j \<noteq> to_idx"
    have "is_list d (ls ! j) (xss ! j)" using ok j(1) by (rule queues_ok_nth)
    then show "is_list d1 (l2 ! j) (xss ! j)"
      using mt_notin[OF j(1,2)] j by (simp add: d1_def is_list_frame l2_other)
  qed
  have all: "list_all2 (is_list d1) l2 ?xss'"
    unfolding list_all2_conv_all_nth
  proof (intro conjI allI impI)
    show "length l2 = length ?xss'" using len2 lx by simp
  next
    fix i assume "i < length l2"
    then have i: "i < length ls" using len2 by simp
    consider "i = from_idx" | "i = to_idx" | "i \<noteq> from_idx" "i \<noteq> to_idx" by blast
    then show "is_list d1 (l2 ! i) (?xss' ! i)"
    proof cases
      case 1
      then show ?thesis using T_from idx lx by simp
    next
      case 2
      then show ?thesis using T_to idx lx by simp
    next
      case 3
      then show ?thesis using T_other[OF i] by simp
    qed
  qed
  have "mset (concat ?xss') = mset (concat xss)"
    using idx lx by (intro mset_concat_move) simp_all
  then have "distinct (concat ?xss')" using dc by (metis mset_eq_imp_distinct_iff)
  with all have "queues_ok d1 l2 ?xss'" by (simp add: queues_ok_def)
  moreover have "mt \<in> set (concat xss)" using mt_in_F idx(1) lx by auto
  then have "\<forall>a. a \<notin> set (concat xss) \<longrightarrow> d1 a = d a" by (auto simp: d1_def)
  ultimately show ?thesis using mc len2 by blast
qed

section \<open>The loops of balancing\<close>

lemma length_concat_ge:
  "(\<And>ys. ys \<in> set yss \<Longrightarrow> a \<le> length ys) \<Longrightarrow> length yss * a \<le> length (concat yss)"
  by (induction yss) (auto simp: add_le_mono)

lemma full_queues_count:
  assumes "\<forall>i < n. a \<le> length (xss ! i)" "n \<le> length xss"
  shows "n * a \<le> length (concat xss)"
proof -
  have "\<And>ys. ys \<in> set (take n xss) \<Longrightarrow> a \<le> length ys"
    using assms by (auto simp: in_set_conv_nth)
  then have "length (take n xss) * a \<le> length (concat (take n xss))"
    by (rule length_concat_ge)
  moreover have "length (concat (take n xss)) \<le> length (concat xss)"
    by (metis append_take_drop_id concat_append length_append le_add1)
  ultimately show ?thesis using assms(2) by simp
qed

lemma nth_length_le_concat: "i < length xss \<Longrightarrow> length (xss ! i) \<le> length (concat xss)"
proof (induction xss arbitrary: i)
  case Nil
  then show ?case by simp
next
  case (Cons a xss)
  then show ?case by (cases i) (auto simp: trans_le_add2)
qed

lemma to_idx_active:
  assumes "balance_inv n avg f to_idx xss" "n \<le> length xss" "length (concat xss) < n * avg"
  shows "to_idx < n"
proof (rule ccontr)
  assume "\<not> to_idx < n"
  then have "\<forall>i < n. avg \<le> length (xss ! i)" using assms(1) by (simp add: balance_inv_def)
  then have "n * avg \<le> length (concat xss)" using assms(2) by (rule full_queues_count)
  with assms(3) show False by simp
qed

lemma balance_inv_skip:
  assumes "balance_inv n avg f to_idx xss" "avg \<le> length (xss ! to_idx)"
  shows "balance_inv n avg f (Suc to_idx) xss"
  using assms by (auto simp: balance_inv_def less_Suc_eq)

lemma balance_inv_done:
  assumes "balance_inv n avg f to_idx xss" "balance_source n avg f 0 xss"
  shows "balance_inv n avg (Suc f) to_idx xss"
  using assms by (auto simp: balance_inv_def balance_source_def less_Suc_eq split: if_splits)

lemma balance_inv_move:
  assumes inv: "balance_inv n avg f to_idx xss"
    and src: "balance_source n avg f remaining xss"
    and r: "0 < remaining"
    and k: "k \<le> remaining" "length (xss ! to_idx) + k \<le> avg"
    and idx: "f < length xss" "to_idx < length xss" "to_idx < n" "f \<noteq> to_idx"
  shows "balance_inv n avg f to_idx
           (xss[to_idx := take k (xss ! f) @ xss ! to_idx, f := drop k (xss ! f)])
         \<and> balance_source n avg f (remaining - k)
             (xss[to_idx := take k (xss ! f) @ xss ! to_idx, f := drop k (xss ! f)])"
proof -
  let ?xss' = "xss[to_idx := take k (xss ! f) @ xss ! to_idx, f := drop k (xss ! f)]"
  have kf: "k \<le> length (xss ! f)"
    using src r k(1) by (auto simp: balance_source_def split: if_splits)
  have nf: "?xss' ! f = drop k (xss ! f)" using idx by simp
  have nt: "?xss' ! to_idx = take k (xss ! f) @ xss ! to_idx" using idx by simp
  have no: "\<And>i. i \<noteq> f \<Longrightarrow> i \<noteq> to_idx \<Longrightarrow> ?xss' ! i = xss ! i" by simp
  have lf: "length (?xss' ! f) = length (xss ! f) - k" by (simp add: nf)
  have lt: "length (?xss' ! to_idx) = length (xss ! to_idx) + k" using kf by (simp add: nt)
  have C: "\<forall>i < to_idx. avg \<le> length (?xss' ! i)"
  proof (intro allI impI)
    fix i assume i: "i < to_idx"
    show "avg \<le> length (?xss' ! i)"
    proof (cases "i = f")
      case True
      then have "f < n" using i idx(3) by simp
      then have "length (xss ! f) = avg + remaining"
        using src r by (simp add: balance_source_def)
      then show ?thesis using True lf k(1) by simp
    next
      case False
      then have "?xss' ! i = xss ! i" using i by (intro no) simp_all
      then show ?thesis using inv i by (simp add: balance_inv_def)
    qed
  qed
  have A: "\<forall>i < n. i < f \<longrightarrow> length (?xss' ! i) \<le> avg"
  proof (intro allI impI)
    fix i assume i: "i < n" "i < f"
    show "length (?xss' ! i) \<le> avg"
    proof (cases "i = to_idx")
      case True
      then show ?thesis using lt k(2) by simp
    next
      case False
      then have "?xss' ! i = xss ! i" using i by (intro no) simp_all
      then show ?thesis using inv i by (simp add: balance_inv_def)
    qed
  qed
  have B: "\<forall>i < length ?xss'. n \<le> i \<and> i < f \<longrightarrow> ?xss' ! i = []"
  proof (intro allI impI)
    fix i assume i: "i < length ?xss'" "n \<le> i \<and> i < f"
    then have "?xss' ! i = xss ! i" using idx(3) by (intro no) simp_all
    then show "?xss' ! i = []" using inv i by (simp add: balance_inv_def)
  qed
  have S: "balance_source n avg f (remaining - k) ?xss'"
    using src r k(1) lf by (auto simp: balance_source_def split: if_splits)
  from C A B S show ?thesis unfolding balance_inv_def by blast
qed

lemma balance_move_loop_correct:
  assumes "queues_ok d ls xss" "n \<le> length ls" "f < length ls"
    "length (concat xss) < n * avg" "avg \<le> SIZE_MAX" "length (concat xss) \<le> SIZE_MAX"
    "balance_inv n avg f to_idx xss" "balance_source n avg f remaining xss"
  shows "\<exists>to' d' ls' xss'.
           balance_move_loop fl n avg f remaining to_idx (d, ls) = Some (Inr (to', d', ls'))
           \<and> queues_ok d' ls' xss' \<and> length ls' = length ls
           \<and> mset (concat xss') = mset (concat xss)
           \<and> balance_inv n avg (Suc f) to' xss'
           \<and> (\<forall>a. a \<notin> set (concat xss) \<longrightarrow> d' a = d a)"
  using assms
proof (induction "(n - to_idx) + remaining" arbitrary: to_idx remaining d ls xss rule: less_induct)
  case less
  note ok = less.prems(1) and inv = less.prems(7) and src = less.prems(8)
  have lx: "length xss = length ls" using ok by (rule queues_ok_length)
  show ?case
  proof (cases "remaining = 0")
    case True
    have "balance_move_loop fl n avg f remaining to_idx (d, ls) = Some (Inr (to_idx, d, ls))"
      by (subst balance_move_loop.simps) (simp only: True less_irrefl if_False)
    moreover have "balance_source n avg f 0 xss" using src True by simp
    then have "balance_inv n avg (Suc f) to_idx xss"
      using inv by (intro balance_inv_done)
    ultimately show ?thesis using ok by blast
  next
    case False
    then have r: "0 < remaining" by simp
    have nx: "n \<le> length xss" using less.prems(2) lx by simp
    have to_n: "to_idx < n"
      using inv nx less.prems(4) by (rule to_idx_active)
    then have to_l: "to_idx < length ls" using less.prems(2) by simp
    have lenT: "len (ls ! to_idx) = length (xss ! to_idx)"
      using queues_ok_nth[OF ok to_l] by (simp add: is_list_def)
    have guard: "\<not> (ASSERT fl \<and> \<not> to_idx < n)"
      "\<not> (\<not> to_idx < length (snd (d, ls)) \<or> \<not> f < length (snd (d, ls)))"
      using to_n to_l less.prems(3) by simp_all
    show ?thesis
    proof (cases "avg \<le> length (xss ! to_idx)")
      case True
      have full: "avg \<le> len (snd (d, ls) ! to_idx)" using True lenT by simp
      have step: "balance_move_loop fl n avg f remaining to_idx (d, ls)
                    = balance_move_loop fl n avg f remaining (to_idx + 1) (d, ls)"
        by (subst balance_move_loop.simps) (simp only: r guard full if_True if_False Let_def)
      have inv': "balance_inv n avg f (Suc to_idx) xss"
        using inv True by (rule balance_inv_skip)
      have m: "n - Suc to_idx + remaining < n - to_idx + remaining" using to_n by simp
      obtain to' d' ls' xss' where
        "balance_move_loop fl n avg f remaining (Suc to_idx) (d, ls) = Some (Inr (to', d', ls'))"
        "queues_ok d' ls' xss'" "length ls' = length ls"
        "mset (concat xss') = mset (concat xss)" "balance_inv n avg (Suc f) to' xss'"
        "\<forall>a. a \<notin> set (concat xss) \<longrightarrow> d' a = d a"
        using less.hyps[OF m ok less.prems(2-6) inv' src] by blast
      then show ?thesis unfolding step by (intro exI[of _ to'] exI[of _ d'] exI[of _ ls'] exI[of _ xss']) simp
    next
      case False
      then have tl: "length (xss ! to_idx) < avg" by simp
      define k where "k = min remaining (avg - length (xss ! to_idx))"
      have k_pos: "0 < k" using r tl by (simp add: k_def)
      have k_rem: "k \<le> remaining" by (simp add: k_def)
      have k_avg: "length (xss ! to_idx) + k \<le> avg" using tl by (simp add: k_def)
      have lenF_le: "length (xss ! f) \<le> length (concat xss)"
        using less.prems(3) lx by (intro nth_length_le_concat) simp
      have rem_le: "remaining \<le> length (xss ! f)"
        using src r by (auto simp: balance_source_def split: if_splits)
      have f_ne: "f \<noteq> to_idx"
      proof
        assume e: "f = to_idx"
        then have "f < n" using to_n by simp
        then have "length (xss ! f) = avg + remaining" using src r by (simp add: balance_source_def)
        with tl e show False by simp
      qed
      have sub1: "size_t_sub avg (length (xss ! to_idx)) = avg - length (xss ! to_idx)"
        using tl less.prems(5) by (intro size_t_sub_small) simp_all
      have k_eq: "MIN2 remaining (size_t_sub avg (len (snd (d, ls) ! to_idx))) = k"
        by (simp add: MIN2_min lenT sub1 k_def)
      have rem_bound: "remaining \<le> SIZE_MAX"
        using rem_le lenF_le less.prems(6) by linarith
      have sub2: "size_t_sub remaining k = remaining - k"
        using k_rem rem_bound by (rule size_t_sub_small)
      have b1: "length (xss ! to_idx) + k \<le> SIZE_MAX" using k_avg less.prems(5) by linarith
      have b2: "length (xss ! f) \<le> SIZE_MAX" using lenF_le less.prems(6) by linarith
      have kF: "k \<le> length (xss ! f)" using k_rem rem_le by simp
      let ?xss' = "xss[to_idx := take k (xss ! f) @ xss ! to_idx, f := drop k (xss ! f)]"
      obtain d1 l1 where mv: "move_chain f to_idx k (d, ls) = Inr (d1, l1)"
        and len1: "length l1 = length ls" and ok1: "queues_ok d1 l1 ?xss'"
        and fr1: "\<forall>a. a \<notin> set (concat xss) \<longrightarrow> d1 a = d a"
        using move_chain_correct[OF ok less.prems(3) to_l f_ne k_pos kF b1 b2] by blast
      have notfull: "\<not> avg \<le> len (snd (d, ls) ! to_idx)" using tl lenT by simp
      have kg: "\<not> (ASSERT fl \<and> \<not> 0 < k)" using k_pos by simp
      have step: "balance_move_loop fl n avg f remaining to_idx (d, ls)
                    = balance_move_loop fl n avg f (remaining - k) to_idx (d1, l1)"
        by (subst balance_move_loop.simps)
          (simp only: r guard notfull if_True if_False Let_def k_eq kg mv sub2 sum.case)
      have ms: "mset (concat ?xss') = mset (concat xss)"
        using less.prems(3) to_l f_ne lx by (intro mset_concat_move) simp_all
      then have lc: "length (concat ?xss') = length (concat xss)"
        by (rule mset_eq_length)
      have fx: "f < length xss" "to_idx < length xss" using less.prems(3) to_l lx by simp_all
      have inv1: "balance_inv n avg f to_idx ?xss'"
        and src1: "balance_source n avg f (remaining - k) ?xss'"
        using balance_inv_move[OF inv src r k_rem k_avg fx to_n f_ne] by simp_all
      have m: "n - to_idx + (remaining - k) < n - to_idx + remaining" using k_pos r k_rem by simp
      have p2: "n \<le> length l1" "f < length l1" using less.prems(2,3) len1 by simp_all
      have p4: "length (concat ?xss') < n * avg" "length (concat ?xss') \<le> SIZE_MAX"
        using less.prems(4,6) lc by simp_all
      obtain to' d' ls' xss' where res:
        "balance_move_loop fl n avg f (remaining - k) to_idx (d1, l1) = Some (Inr (to', d', ls'))"
        "queues_ok d' ls' xss'" "length ls' = length l1"
        "mset (concat xss') = mset (concat ?xss')" "balance_inv n avg (Suc f) to' xss'"
        "\<forall>a. a \<notin> set (concat ?xss') \<longrightarrow> d' a = d1 a"
        using less.hyps[OF m ok1 p2 p4(1) less.prems(5) p4(2) inv1 src1] by blast
      have "mset (concat xss') = mset (concat xss)" using res(4) ms by (rule trans)
      moreover have "length ls' = length ls" using res(3) len1 by (rule trans)
      moreover have "set (concat ?xss') = set (concat xss)" using ms by (rule mset_eq_setD)
      then have "\<forall>a. a \<notin> set (concat xss) \<longrightarrow> d' a = d a" using res(6) fr1 by simp
      ultimately show ?thesis
        unfolding step using res(1,2,5)
        by (intro exI[of _ to'] exI[of _ d'] exI[of _ ls'] exI[of _ xss']) simp
    qed
  qed
qed

lemma foldl_size_t_add:
  "a + sum_list xs \<le> SIZE_MAX \<Longrightarrow> foldl size_t_add a xs = a + sum_list xs"
proof (induction xs arbitrary: a)
  case Nil
  then show ?case by simp
next
  case (Cons x xs)
  then have "a + x \<le> SIZE_MAX" by simp
  then have 1: "size_t_add a x = a + x" by (rule size_t_add_small)
  have "(a + x) + sum_list xs \<le> SIZE_MAX" using Cons.prems by simp
  then have "foldl size_t_add (a + x) xs = (a + x) + sum_list xs" by (rule Cons.IH)
  then show ?case by (simp add: 1)
qed

lemma map_len_is_list: "list_all2 (is_list d) ls xss \<Longrightarrow> map len ls = map length xss"
  by (induction rule: list_all2_induct) (simp_all add: is_list_def)

lemma queues_ok_total:
  assumes "queues_ok d ls xss"
  shows "sum_list (map len ls) = length (concat xss)"
proof -
  have "map len ls = map length xss"
    using assms by (intro map_len_is_list[of d]) (simp add: queues_ok_def)
  then show ?thesis by (simp add: length_concat)
qed

lemma queues_ok_len: "queues_ok d ls xss \<Longrightarrow> i < length ls \<Longrightarrow> len (ls ! i) = length (xss ! i)"
  using queues_ok_nth[of d ls xss i] by (simp add: is_list_def)

lemma queues_ok_head_empty:
  "queues_ok d ls xss \<Longrightarrow> i < length ls \<Longrightarrow> xss ! i = [] \<Longrightarrow> head (ls ! i) = None"
  using queues_ok_nth[of d ls xss i] by (simp add: is_list_def)

lemma total_count_queues:
  assumes "queues_ok d ls xss" "length (concat xss) \<le> SIZE_MAX"
  shows "total_count (length ls) ls = Inr (length (concat xss))"
proof -
  have "sum_list (map len ls) = length (concat xss)" using assms(1) by (rule queues_ok_total)
  then have "foldl size_t_add 0 (map len ls) = length (concat xss)"
    using assms(2) foldl_size_t_add[of 0 "map len ls"] by simp
  then show ?thesis by (simp add: total_count_def)
qed

lemma total_less_queues_times_avg: "0 < n \<Longrightarrow> (t :: nat) < n * (t div n + 1)"
  using dividend_less_times_div[of n t] by (simp add: ac_simps)

lemma balance_from_loop_correct:
  assumes "queues_ok d ls xss" "n \<le> length ls" "f \<le> length ls"
    "length (concat xss) < n * avg" "avg \<le> SIZE_MAX" "length (concat xss) \<le> SIZE_MAX"
    "balance_inv n avg f to_idx xss"
  shows "\<exists>to' d' ls' xss'.
           balance_from_loop fl n avg [f..<length ls] to_idx (d, ls) = Some (Inr (to', d', ls'))
           \<and> queues_ok d' ls' xss' \<and> length ls' = length ls
           \<and> mset (concat xss') = mset (concat xss)
           \<and> balance_inv n avg (length ls) to' xss'
           \<and> (\<forall>a. a \<notin> set (concat xss) \<longrightarrow> d' a = d a)"
  using assms
proof (induction "length ls - f" arbitrary: f to_idx d ls xss)
  case 0
  then have "f = length ls" by simp
  then have "balance_from_loop fl n avg [f..<length ls] to_idx (d, ls) = Some (Inr (to_idx, d, ls))"
    by simp
  moreover have "balance_inv n avg (length ls) to_idx xss" using "0.prems"(7) \<open>f = length ls\<close> by simp
  ultimately show ?case using "0.prems"(1) by blast
next
  case (Suc m)
  note ok = Suc.prems(1)
  have fl: "f < length ls" using Suc.hyps(2) by simp
  have lx: "length xss = length ls" using ok by (rule queues_ok_length)
  have lenF: "len (ls ! f) = length (xss ! f)" using ok fl by (rule queues_ok_len)
  have lenF_le: "length (xss ! f) \<le> length (concat xss)"
    using fl lx by (intro nth_length_le_concat) simp
  then have lenF_max: "length (xss ! f) \<le> SIZE_MAX" using Suc.prems(6) by linarith
  define remaining where
    "remaining = (if f \<ge> n then len (ls ! f)
                  else if len (ls ! f) > avg then size_t_sub (len (ls ! f)) avg else 0)"
  have src: "balance_source n avg f remaining xss"
  proof (cases "f < n")
    case True
    show ?thesis
    proof (cases "avg < length (xss ! f)")
      case True
      then have "size_t_sub (length (xss ! f)) avg = length (xss ! f) - avg"
        using lenF_max by (intro size_t_sub_small) simp_all
      with True \<open>f < n\<close> show ?thesis by (simp add: balance_source_def remaining_def lenF)
    next
      case False
      with \<open>f < n\<close> show ?thesis by (simp add: balance_source_def remaining_def lenF)
    qed
  next
    case False
    then show ?thesis by (simp add: balance_source_def remaining_def lenF)
  qed
  obtain to1 d1 ls1 xss1 where in1:
    "balance_move_loop fl n avg f remaining to_idx (d, ls) = Some (Inr (to1, d1, ls1))"
    "queues_ok d1 ls1 xss1" "length ls1 = length ls"
    "mset (concat xss1) = mset (concat xss)" "balance_inv n avg (Suc f) to1 xss1"
    "\<forall>a. a \<notin> set (concat xss) \<longrightarrow> d1 a = d a"
    using balance_move_loop_correct[OF ok Suc.prems(2) fl Suc.prems(4,5,6,7) src] by blast
  have lc: "length (concat xss1) = length (concat xss)" using in1(4) by (rule mset_eq_length)
  have m: "m = length ls1 - Suc f" using Suc.hyps(2) in1(3) by simp
  have p: "n \<le> length ls1" "Suc f \<le> length ls1" using Suc.prems(2) fl in1(3) by simp_all
  have q: "length (concat xss1) < n * avg" "length (concat xss1) \<le> SIZE_MAX"
    using Suc.prems(4,6) lc by simp_all
  obtain to' d' ls' xss' where res:
    "balance_from_loop fl n avg [Suc f..<length ls1] to1 (d1, ls1) = Some (Inr (to', d', ls'))"
    "queues_ok d' ls' xss'" "length ls' = length ls1"
    "mset (concat xss') = mset (concat xss1)" "balance_inv n avg (length ls1) to' xss'"
    "\<forall>a. a \<notin> set (concat xss1) \<longrightarrow> d' a = d1 a"
    using Suc.hyps(1)[OF m in1(2) p q(1) Suc.prems(5) q(2) in1(5)] by blast
  have up: "[f..<length ls] = f # [Suc f..<length ls]" using fl by (rule upt_conv_Cons)
  have step: "balance_from_loop fl n avg [f..<length ls] to_idx (d, ls)
                = balance_from_loop fl n avg [Suc f..<length ls1] to1 (d1, ls1)"
    unfolding up using fl in1(1) in1(3)
    by (simp add: remaining_def[symmetric] Let_def)
  have "mset (concat xss') = mset (concat xss)" using res(4) in1(4) by (rule trans)
  moreover have "length ls' = length ls" using res(3) in1(3) by (rule trans)
  moreover have "balance_inv n avg (length ls) to' xss'" using res(5) in1(3) by simp
  moreover have "set (concat xss1) = set (concat xss)" using in1(4) by (rule mset_eq_setD)
  then have "\<forall>a. a \<notin> set (concat xss) \<longrightarrow> d' a = d a" using res(6) in1(6) by simp
  ultimately show ?case
    unfolding step using res(1,2)
    by (intro exI[of _ to'] exI[of _ d'] exI[of _ ls'] exI[of _ xss']) simp
qed

lemma concat_all_empty: "(\<And>ys. ys \<in> set yss \<Longrightarrow> ys = []) \<Longrightarrow> concat yss = []"
  by (induction yss) auto

lemma concat_take_active:
  assumes "\<forall>i < length xss. n \<le> i \<longrightarrow> xss ! i = []"
  shows "concat (take n xss) = concat xss"
proof -
  have "\<And>ys. ys \<in> set (drop n xss) \<Longrightarrow> ys = []"
    using assms by (auto simp: in_set_conv_nth)
  then have "concat (drop n xss) = []" by (rule concat_all_empty)
  moreover have "concat xss = concat (take n xss) @ concat (drop n xss)"
    by (metis append_take_drop_id concat_append)
  ultimately show ?thesis by simp
qed

lemma balance_queues_correct:
  assumes ok: "queues_ok d ls xss" and n: "0 < n" "n \<le> length ls"
    and total: "length (concat xss) < SIZE_MAX"
  shows "\<exists>d' ls' xss'.
           balance_queues fl n (length ls) (d, ls) = Some (Inr (d', ls'))
           \<and> queues_ok d' ls' xss' \<and> length ls' = length ls
           \<and> mset (concat xss') = mset (concat xss)
           \<and> (\<forall>i < n. length (xss' ! i) \<le> length (concat xss) div n + 1)
           \<and> (\<forall>i < length ls. n \<le> i \<longrightarrow> xss' ! i = [])
           \<and> (\<forall>a. a \<notin> set (concat xss) \<longrightarrow> d' a = d a)"
proof -
  define t where "t = length (concat xss)"
  define avg where "avg = t div n + 1"
  have t_max: "t \<le> SIZE_MAX" using total by (simp add: t_def)
  have tc: "total_count (length ls) (snd (d, ls)) = Inr t"
    using total_count_queues[OF ok] t_max by (simp add: t_def)
  have "t < SIZE_MAX" using total by (simp add: t_def)
  moreover have "t div n \<le> t" by (rule div_le_dividend)
  ultimately have "t div n + 1 \<le> SIZE_MAX" by linarith
  then have avg_eq: "size_t_add (t div n) 1 = avg"
    unfolding avg_def by (rule size_t_add_small)
  have avg_max: "avg \<le> SIZE_MAX" using \<open>t div n + 1 \<le> SIZE_MAX\<close> by (simp add: avg_def)
  have lt: "length (concat xss) < n * avg"
    using total_less_queues_times_avg[OF n(1), of t] by (simp add: avg_def t_def)
  have inv0: "balance_inv n avg 0 0 xss" by (simp add: balance_inv_def)
  obtain to' d' ls' xss' where res:
    "balance_from_loop fl n avg [0..<length ls] 0 (d, ls) = Some (Inr (to', d', ls'))"
    "queues_ok d' ls' xss'" "length ls' = length ls"
    "mset (concat xss') = mset (concat xss)" "balance_inv n avg (length ls) to' xss'"
    "\<forall>a. a \<notin> set (concat xss) \<longrightarrow> d' a = d a"
    using balance_from_loop_correct[OF ok n(2) _ lt avg_max _ inv0, of fl] t_max
    by (auto simp: t_def)
  have lx': "length xss' = length ls" using queues_ok_length[OF res(2)] res(3) by simp
  have A: "\<forall>i < n. length (xss' ! i) \<le> avg"
    using res(5) n(2) by (auto simp: balance_inv_def)
  have B: "\<forall>i < length xss'. n \<le> i \<longrightarrow> xss' ! i = []"
    using res(5) lx' by (auto simp: balance_inv_def)
  have lc: "length (concat xss') = t" using mset_eq_length[OF res(4)] by (simp add: t_def)
  have "sum_list (map len (take n ls')) = length (concat (take n xss'))"
  proof -
    have "list_all2 (is_list d') (take n ls') (take n xss')"
      using res(2) by (simp add: queues_ok_def list_all2_takeI)
    then have "map len (take n ls') = map length (take n xss')" by (rule map_len_is_list)
    then show ?thesis by (simp add: length_concat)
  qed
  also have "\<dots> = t" using concat_take_active[OF B] lc by simp
  finally have st: "sum_list (map len (take n ls')) = t" .
  then have "foldl size_t_add 0 (map len (take n ls')) = t"
    using t_max foldl_size_t_add[of 0 "map len (take n ls')"] by simp
  then have chk: "\<not> (ASSERT fl \<and> t \<noteq> foldl size_t_add 0 (map len (take n (snd (d', ls')))))"
    by simp
  have chk0: "\<not> (ASSERT fl \<and> length (snd (d', ls')) < n)" using res(3) n(2) by simp
  have n0: "n \<noteq> 0" using n(1) by simp
  have "balance_queues fl n (length ls) (d, ls) = Some (Inr (d', ls'))"
    unfolding balance_queues_def tc
    by (simp only: sum.case n0 if_False Let_def avg_eq res(1) option.case prod.case chk chk0)
  moreover have "\<forall>i < length ls. n \<le> i \<longrightarrow> xss' ! i = []" using B lx' by simp
  moreover have "\<forall>i < n. length (xss' ! i) \<le> length (concat xss) div n + 1"
    using A by (simp add: avg_def t_def)
  ultimately show ?thesis using res(2,3,4,6) by blast
qed

section \<open>Properties of balancing\<close>

lemma example_queues_ok: "queues_ok example_discovered_fields example_queues example_entries"
  by (simp add: queues_ok_def is_list_def example_discovered_fields_def example_queues_def
      example_entries_def)

lemma example_entries_total: "length (concat example_entries) < SIZE_MAX"
  by (simp add: example_entries_def SIZE_MAX_def)


lemma upt3: "[0..<3] = [0, 1, 2]" by (simp add: upt_rec)

lemma find_split_unfold:
  "find_split d k mt nh =
     (if k = 0 then Inr (mt, nh)
      else case nh of None \<Rightarrow> Inl NullDereference | Some a \<Rightarrow> find_split d (k - 1) nh (d a))"
  by (cases k) (simp_all split: option.splits)

lemma example_balanced:
  "map_option (map_sum id snd)
     (balance_queues example_flags 2 3 (example_discovered_fields, example_queues))
   = Some (Inr [\<lparr>head = Some 2, len = 4\<rparr>, \<lparr>head = Some 6, len = 3\<rparr>,
                \<lparr>head = None, len = 0\<rparr>])"
  by (simp add: balance_queues_def total_count_def upt3 balance_move_loop.simps move_chain_def
      example_queues_def example_discovered_fields_def example_flags_def find_split_unfold
      size_t_add_def size_t_sub_def SIZE_MAX_def MIN2_def inc_length_def dec_length_def
      Let_def)

text \<open>
  C1. For every distribution of entries across the queues of a reference type,
  \<^verbatim>\<open>balance_queues\<close> returns, the queues it leaves hold the same entries as before, and the sum
  of the queue lengths is the sum before; no length has wrapped around: every length is the
  number of entries of its queue and at most the total. The processing degree is positive and
  at most the number of queues, as the processor keeps it, and the total fits a \<^verbatim>\<open>size_t\<close>.
\<close>

theorem balance_queues_preserves_total:
  assumes "queues_ok d ref_lists entries" "0 < n_queues" "n_queues \<le> max_queues"
    "max_queues = length ref_lists" "length (concat entries) < SIZE_MAX"
  shows "\<exists>d' ref_lists' entries'.
           balance_queues f n_queues max_queues (d, ref_lists) = Some (Inr (d', ref_lists'))
           \<and> queues_ok d' ref_lists' entries'
           \<and> mset (concat entries') = mset (concat entries)
           \<and> sum_list (map len ref_lists') = sum_list (map len ref_lists)
           \<and> (\<forall>l \<in> set ref_lists'. len l \<le> sum_list (map len ref_lists))"
proof -
  have n: "n_queues \<le> length ref_lists" using assms(3,4) by simp
  obtain d' ls' xss' where res:
    "balance_queues f n_queues (length ref_lists) (d, ref_lists) = Some (Inr (d', ls'))"
    "queues_ok d' ls' xss'" "length ls' = length ref_lists"
    "mset (concat xss') = mset (concat entries)"
    using balance_queues_correct[OF assms(1,2) n assms(5), of f] by blast
  have t: "sum_list (map len ref_lists) = length (concat entries)"
    using assms(1) by (rule queues_ok_total)
  have t': "sum_list (map len ls') = length (concat xss')"
    using res(2) by (rule queues_ok_total)
  have lc: "length (concat xss') = length (concat entries)"
    using res(4) by (rule mset_eq_length)
  have s: "sum_list (map len ls') = sum_list (map len ref_lists)" using t t' lc by simp
  have b: "\<forall>l \<in> set ls'. len l \<le> sum_list (map len ref_lists)"
  proof
    fix l assume "l \<in> set ls'"
    then have "len l \<in> set (map len ls')" by simp
    then have "len l \<le> sum_list (map len ls')" by (intro member_le_sum_list) simp_all
    then show "len l \<le> sum_list (map len ref_lists)" using s by simp
  qed
  show ?thesis using res(1,2,4) s b unfolding assms(4) by blast
qed

theorem balance_queues_preserves_total_witness:
  "\<exists>d' ref_lists' entries'.
     balance_queues example_flags 2 3 (example_discovered_fields, example_queues)
       = Some (Inr (d', ref_lists'))
     \<and> queues_ok d' ref_lists' entries'
     \<and> mset (concat entries') = mset (concat example_entries)
     \<and> sum_list (map len ref_lists') = 7"
proof -
  have l: "3 = length example_queues" "sum_list (map len example_queues) = 7"
    by (simp_all add: example_queues_def)
  show ?thesis
    using balance_queues_preserves_total
            [OF example_queues_ok _ _ l(1) example_entries_total, of 2 example_flags]
    unfolding l(2) by auto
qed

text \<open>
  C2. For every distribution of entries across the queues, after \<^verbatim>\<open>balance_queues\<close> every
  active queue (index below the processing degree) has at most
  \<open>avg = total / num_queues + 1\<close> entries, and every queue beyond the processing degree is
  empty, with length 0.
\<close>

theorem balance_queues_fair:
  assumes "queues_ok d ref_lists entries" "0 < n_queues" "n_queues \<le> max_queues"
    "max_queues = length ref_lists" "length (concat entries) < SIZE_MAX"
  shows "\<exists>d' ref_lists'.
           balance_queues f n_queues max_queues (d, ref_lists) = Some (Inr (d', ref_lists'))
           \<and> length ref_lists' = length ref_lists
           \<and> (\<forall>i < length ref_lists'.
                 (i < n_queues \<longrightarrow>
                    len (ref_lists' ! i) \<le> sum_list (map len ref_lists) div n_queues + 1)
                 \<and> (n_queues \<le> i \<longrightarrow> len (ref_lists' ! i) = 0 \<and> is_empty (ref_lists' ! i)))"
proof -
  have n: "n_queues \<le> length ref_lists" using assms(3,4) by simp
  obtain d' ls' xss' where res:
    "balance_queues f n_queues (length ref_lists) (d, ref_lists) = Some (Inr (d', ls'))"
    "queues_ok d' ls' xss'" "length ls' = length ref_lists"
    "\<forall>i < n_queues. length (xss' ! i) \<le> length (concat entries) div n_queues + 1"
    "\<forall>i < length ref_lists. n_queues \<le> i \<longrightarrow> xss' ! i = []"
    using balance_queues_correct[OF assms(1,2) n assms(5), of f] by blast
  have t: "sum_list (map len ref_lists) = length (concat entries)"
    using assms(1) by (rule queues_ok_total)
  have "\<forall>i < length ls'.
          (i < n_queues \<longrightarrow> len (ls' ! i) \<le> sum_list (map len ref_lists) div n_queues + 1)
          \<and> (n_queues \<le> i \<longrightarrow> len (ls' ! i) = 0 \<and> is_empty (ls' ! i))"
  proof (intro allI impI conjI)
    fix i assume i: "i < length ls'" "i < n_queues"
    have "len (ls' ! i) = length (xss' ! i)" using res(2) i(1) by (rule queues_ok_len)
    then show "len (ls' ! i) \<le> sum_list (map len ref_lists) div n_queues + 1"
      using res(4) i(2) t by simp
  next
    fix i assume i: "i < length ls'" "n_queues \<le> i"
    then have e: "xss' ! i = []" using res(5,3) by simp
    have "len (ls' ! i) = length (xss' ! i)" using res(2) i(1) by (rule queues_ok_len)
    then show "len (ls' ! i) = 0" using e by simp
    show "is_empty (ls' ! i)"
      using queues_ok_head_empty[OF res(2) i(1) e] by (simp add: is_empty_def)
  qed
  then show ?thesis using res(1,3) unfolding assms(4) by blast
qed

theorem balance_queues_fair_witness:
  "\<exists>d' ref_lists'.
     balance_queues example_flags 2 3 (example_discovered_fields, example_queues)
       = Some (Inr (d', ref_lists'))
     \<and> length ref_lists' = 3
     \<and> len (ref_lists' ! 0) \<le> 4 \<and> len (ref_lists' ! 1) \<le> 4
     \<and> len (ref_lists' ! 2) = 0 \<and> is_empty (ref_lists' ! 2)"
proof -
  have l: "3 = length example_queues" "sum_list (map len example_queues) = 7"
    "length example_queues = 3"
    by (simp_all add: example_queues_def)
  obtain d' ls' where res:
    "balance_queues example_flags 2 3 (example_discovered_fields, example_queues)
       = Some (Inr (d', ls'))"
    "length ls' = 3"
    "\<forall>i < length ls'. (i < 2 \<longrightarrow> len (ls' ! i) \<le> 7 div 2 + 1)
        \<and> (2 \<le> i \<longrightarrow> len (ls' ! i) = 0 \<and> is_empty (ls' ! i))"
    using balance_queues_fair
            [OF example_queues_ok _ _ l(1) example_entries_total, of 2 example_flags]
    unfolding l(2,3) by auto
  have "len (ls' ! 0) \<le> 4" "len (ls' ! 1) \<le> 4" "len (ls' ! 2) = 0" "is_empty (ls' ! 2)"
    using res(2,3) by simp_all
  then show ?thesis using res(1,2) by blast
qed

section \<open>The loop of the KeepAliveFinal phase\<close>

lemma visit_final_frame:
  "Reference_discovered (visit_final c a h) = Reference_discovered h"
  "reference_pending_list (visit_final c a h) = reference_pending_list h"
  "SoftReference_clock (visit_final c a h) = SoftReference_clock h"
  "b \<noteq> a \<Longrightarrow> Reference_referent (visit_final c a h) b = Reference_referent h b"
  "b \<noteq> a \<Longrightarrow> Reference_next (visit_final c a h) b = Reference_next h b"
  "Reference_next (visit_final c a h) a = Some a"
  "gc (visit_final c a h) = fst (keep_alive c (gc h) (Reference_referent h a))"
  by (simp_all add: visit_final_def split: prod.splits)

lemma keep_alive_all_frame:
  "Reference_discovered (keep_alive_all c xs h) = Reference_discovered h"
  "reference_pending_list (keep_alive_all c xs h) = reference_pending_list h"
  "SoftReference_clock (keep_alive_all c xs h) = SoftReference_clock h"
  by (induction xs arbitrary: h) (simp_all add: visit_final_frame)

lemma keep_alive_all_other:
  "b \<notin> set xs \<Longrightarrow> Reference_referent (keep_alive_all c xs h) b = Reference_referent h b"
  "b \<notin> set xs \<Longrightarrow> Reference_next (keep_alive_all c xs h) b = Reference_next h b"
  by (induction xs arbitrary: h) (simp_all add: visit_final_frame)

lemma keep_alive_all_next:
  "a \<in> set xs \<Longrightarrow> Reference_next (keep_alive_all c xs h) a = Some a"
proof (induction xs arbitrary: h)
  case Nil
  then show ?case by simp
next
  case (Cons x xs)
  show ?case
  proof (cases "a \<in> set xs")
    case True
    then show ?thesis using Cons.IH by simp
  next
    case False
    with Cons.prems have "a = x" by simp
    with False show ?thesis by (simp add: keep_alive_all_other visit_final_frame)
  qed
qed

lemma keep_alive_all_gc:
  "distinct xs \<Longrightarrow>
     gc (keep_alive_all c xs h)
       = foldl (\<lambda>g a. fst (keep_alive c g (Reference_referent h a))) (gc h) xs"
proof (induction xs arbitrary: h)
  case Nil
  then show ?case by simp
next
  case (Cons x xs)
  have "foldl (\<lambda>g a. fst (keep_alive c g (Reference_referent (visit_final c x h) a)))
          (gc (visit_final c x h)) xs
        = foldl (\<lambda>g a. fst (keep_alive c g (Reference_referent h a)))
          (gc (visit_final c x h)) xs"
  proof (intro foldl_cong refl)
    fix g a assume "a \<in> set xs"
    then have "a \<noteq> x" using Cons.prems by auto
    then show "fst (keep_alive c g (Reference_referent (visit_final c x h) a))
                 = fst (keep_alive c g (Reference_referent h a))"
      by (simp add: visit_final_frame)
  qed
  then show ?case using Cons by (simp add: visit_final_frame)
qed

lemma oop_store_same: "oop_load addr st = v \<Longrightarrow> oop_store addr v st = st"
  by (cases addr; cases st) (auto simp: oop_load_def oop_store_def)

lemma enqueue_store:
  "enqueue st = oop_store (prev_discovered_addr (iter st)) (current_discovered (iter st)) st"
  by (simp add: enqueue_def BarrierEnqueueDiscoveredFieldClosure_enqueue_def Let_def)

lemma enqueue_linked:
  "oop_load (prev_discovered_addr (iter st)) st = current_discovered (iter st)
     \<Longrightarrow> enqueue st = st"
  unfolding enqueue_store by (rule oop_store_same)

lemma final_keep_alive_step:
  assumes cur: "current_discovered (iter st) = Some y"
    and link: "oop_load (prev_discovered_addr (iter st)) st = Some y"
    and chk: "ASSERT fl \<longrightarrow> Reference_referent (hp st) y \<noteq> None \<and> Reference_next (hp st) y = None"
  shows "process_final_keep_alive_work_loop fl c st
           = process_final_keep_alive_work_loop fl c (after_final_visit c y st)"
proof -
  define st1 where "st1 = st\<lparr>iter := (iter st)
                      \<lparr>current_discovered_addr := Some (discovered_addr_raw y),
                       next_discovered := Reference_discovered (hp st) y,
                       referent := Reference_referent (hp st) y\<rparr>\<rparr>"
  have l: "load_ptrs fl False st = Inr st1"
    using cur chk by (auto simp: load_ptrs_def st1_def Let_def)
  obtain g r where k: "keep_alive c (gc (hp st)) (Reference_referent (hp st) y) = (g, r)"
    by (cases "keep_alive c (gc (hp st)) (Reference_referent (hp st) y)")
  define st2 where "st2 = st1\<lparr>hp := (hp st)\<lparr>gc := g,
                      Reference_referent := (Reference_referent (hp st))(y := r)\<rparr>\<rparr>"
  have m: "make_referent_alive c st1 = Inr st2"
    using cur k by (simp add: make_referent_alive_def st1_def st2_def)
  have c2: "current_discovered (iter st2) = Some y" using cur by (simp add: st2_def st1_def)
  have n2: "\<not> (ASSERT fl \<and> Reference_next (hp st2) y \<noteq> None)"
    using chk by (simp add: st2_def st1_def)
  define st3 where "st3 = st2\<lparr>hp := (hp st2)\<lparr>Reference_next :=
                                       (Reference_next (hp st2))(y := Some y)\<rparr>\<rparr>"
  have "oop_load (prev_discovered_addr (iter st3)) st3 = current_discovered (iter st3)"
    using link cur
    by (cases "prev_discovered_addr (iter st)")
      (simp_all add: oop_load_def st3_def st2_def st1_def)
  then have e: "enqueue st3 = st3" by (rule enqueue_linked)
  have h3: "hp st3 = visit_final c y (hp st)"
    by (simp add: st3_def st2_def st1_def visit_final_def k)
  have i3: "iter st3 = (iter st)\<lparr>current_discovered_addr := Some (discovered_addr_raw y),
                         next_discovered := Reference_discovered (hp st) y,
                         referent := Reference_referent (hp st) y\<rparr>"
    and r3: "refs_list st3 = refs_list st"
    by (simp_all add: st3_def st2_def st1_def)
  have "move_to_next (st3\<lparr>iter := (iter st3)\<lparr>prev_discovered_addr := discovered_addr_raw y,
                                                prev_discovered := current_discovered (iter st3)\<rparr>\<rparr>)
          = after_final_visit c y st"
    unfolding move_to_next_def after_final_visit_def Let_def
    by (rule iteration.equality) (simp_all add: i3 r3 h3 cur)
  then have nx: "iter_next st3 = Inr (after_final_visit c y st)"
    by (simp add: iter_next_def i3 Let_def)
  have hn: "has_next st" using cur by (simp add: has_next_def)
  show ?thesis
    by (subst process_final_keep_alive_work_loop.simps)
      (simp only: hn if_True l sum.case m c2 option.case n2 if_False Let_def st3_def[symmetric]
        e nx)
qed

lemma chain_hd_field:
  "chain d (y # ys) t \<Longrightarrow> d y = (case ys of [] \<Rightarrow> t | z # _ \<Rightarrow> Some z)"
  by (cases ys) auto

lemma chain_tail: "chain d (y # ys) t \<Longrightarrow> chain d ys t"
  by (cases ys) auto

lemma final_keep_alive_loop:
  assumes "chain (Reference_discovered (hp st)) ys (Some (last ys))" "distinct ys"
    and "current_discovered (iter st) = (case ys of [] \<Rightarrow> None | y # _ \<Rightarrow> Some y)"
    and "ys \<noteq> [] \<longrightarrow> oop_load (prev_discovered_addr (iter st)) st = Some (hd ys)"
    and "ASSERT fl \<longrightarrow>
           (\<forall>a \<in> set ys. Reference_referent (hp st) a \<noteq> None \<and> Reference_next (hp st) a = None)"
  shows "\<exists>st'. process_final_keep_alive_work_loop fl c st = Some (Inr st')
           \<and> refs_list st' = refs_list st
           \<and> hp st' = keep_alive_all c ys (hp st)
           \<and> removed (iter st') = removed (iter st)
           \<and> prev_discovered (iter st')
               = (if ys = [] then prev_discovered (iter st) else Some (last ys))"
  using assms
proof (induction ys arbitrary: st)
  case Nil
  then have "\<not> has_next st" by (simp add: has_next_def)
  then have "process_final_keep_alive_work_loop fl c st = Some (Inr st)"
    by (subst process_final_keep_alive_work_loop.simps) simp
  then show ?case by simp
next
  case (Cons y ys)
  let ?st4 = "after_final_visit c y st"
  have cur: "current_discovered (iter st) = Some y" using Cons.prems(3) by simp
  have link: "oop_load (prev_discovered_addr (iter st)) st = Some y" using Cons.prems(4) by simp
  have chk: "ASSERT fl \<longrightarrow>
               Reference_referent (hp st) y \<noteq> None \<and> Reference_next (hp st) y = None"
    using Cons.prems(5) by simp
  have step: "process_final_keep_alive_work_loop fl c st
                = process_final_keep_alive_work_loop fl c ?st4"
    using cur link chk by (rule final_keep_alive_step)
  have dy: "Reference_discovered (hp st) y = (case ys of [] \<Rightarrow> Some y | z # _ \<Rightarrow> Some z)"
    using chain_hd_field[OF Cons.prems(1)] by (cases ys) simp_all
  have d4: "Reference_discovered (hp ?st4) = Reference_discovered (hp st)"
    by (simp add: after_final_visit_def visit_final_frame)
  have p1: "chain (Reference_discovered (hp ?st4)) ys (Some (last ys))"
    using chain_tail[OF Cons.prems(1)] by (cases ys) (simp_all add: d4)
  have p2: "distinct ys" using Cons.prems(2) by simp
  have p3: "current_discovered (iter ?st4) = (case ys of [] \<Rightarrow> None | z # _ \<Rightarrow> Some z)"
    using Cons.prems(2) by (cases ys) (auto simp: after_final_visit_def dy)
  have p4: "ys \<noteq> [] \<longrightarrow> oop_load (prev_discovered_addr (iter ?st4)) ?st4 = Some (hd ys)"
    by (cases ys) (simp_all add: after_final_visit_def oop_load_def visit_final_frame dy)
  have p5: "ASSERT fl \<longrightarrow>
              (\<forall>a \<in> set ys. Reference_referent (hp ?st4) a \<noteq> None
                                \<and> Reference_next (hp ?st4) a = None)"
  proof (intro impI ballI)
    fix a assume "ASSERT fl" and a: "a \<in> set ys"
    then have "Reference_referent (hp st) a \<noteq> None \<and> Reference_next (hp st) a = None"
      using Cons.prems(5) by simp
    moreover have "a \<noteq> y" using a Cons.prems(2) by auto
    ultimately show "Reference_referent (hp ?st4) a \<noteq> None \<and> Reference_next (hp ?st4) a = None"
      by (simp add: after_final_visit_def visit_final_frame)
  qed
  obtain st' where res:
    "process_final_keep_alive_work_loop fl c ?st4 = Some (Inr st')"
    "refs_list st' = refs_list ?st4" "hp st' = keep_alive_all c ys (hp ?st4)"
    "removed (iter st') = removed (iter ?st4)"
    "prev_discovered (iter st') = (if ys = [] then prev_discovered (iter ?st4) else Some (last ys))"
    using Cons.IH[OF p1 p2 p3 p4 p5] by blast
  have "refs_list st' = refs_list st" using res(2) by (simp add: after_final_visit_def)
  moreover have "hp st' = keep_alive_all c (y # ys) (hp st)"
    using res(3) by (simp add: after_final_visit_def)
  moreover have "removed (iter st') = removed (iter st)"
    using res(4) by (simp add: after_final_visit_def)
  moreover have "prev_discovered (iter st') = Some (last (y # ys))"
    using res(5) by (simp add: after_final_visit_def)
  ultimately show ?case unfolding step using res(1) by simp
qed

lemma process_final_keep_alive_work_correct:
  assumes l: "is_list (Reference_discovered h) l xs" and d: "distinct xs"
    and chk: "ASSERT fl \<longrightarrow>
                (\<forall>a \<in> set xs. Reference_referent h a \<noteq> None \<and> Reference_next h a = None)"
  shows "process_final_keep_alive_work fl c l h
           = Some (Inr (0, \<lparr>head = None, len = 0\<rparr>,
               if xs = [] then h
               else (keep_alive_all c xs h)
                      \<lparr>Reference_discovered :=
                         (Reference_discovered h)(last xs := reference_pending_list h),
                       reference_pending_list := Some (hd xs)\<rparr>))"
proof -
  let ?st = "\<lparr>iter = DiscoveredListIterator_ctor l, refs_list = l, hp = h\<rparr>"
  have hd: "head l = (case xs of [] \<Rightarrow> None | y # _ \<Rightarrow> Some y)"
    using l by (simp add: is_list_def)
  have p1: "chain (Reference_discovered (hp ?st)) xs (Some (last xs))"
    using l by (simp add: is_list_def)
  have p3: "current_discovered (iter ?st) = (case xs of [] \<Rightarrow> None | y # _ \<Rightarrow> Some y)"
    using hd by (simp add: DiscoveredListIterator_ctor_def)
  have p4: "xs \<noteq> [] \<longrightarrow> oop_load (prev_discovered_addr (iter ?st)) ?st = Some (hd xs)"
    using hd by (cases xs) (simp_all add: DiscoveredListIterator_ctor_def oop_load_def)
  have p5: "ASSERT fl \<longrightarrow>
              (\<forall>a \<in> set xs. Reference_referent (hp ?st) a \<noteq> None
                                \<and> Reference_next (hp ?st) a = None)"
    using chk by simp
  obtain st' where res:
    "process_final_keep_alive_work_loop fl c ?st = Some (Inr st')"
    "refs_list st' = l" "hp st' = keep_alive_all c xs h"
    "removed (iter st') = 0"
    "prev_discovered (iter st') = (if xs = [] then None else Some (last xs))"
    using final_keep_alive_loop[OF p1 d p3 p4 p5, of c]
    by (auto simp: DiscoveredListIterator_ctor_def)
  show ?thesis
  proof (cases "xs = []")
    case True
    then have "complete_enqueue st' = st'" using res(5) by (simp add: complete_enqueue_def)
    then show ?thesis
      using True res
      by (simp add: process_final_keep_alive_work_def DiscoveredList_clear_def Let_def)
  next
    case False
    then have hd': "head l = Some (hd xs)" using hd by (cases xs) simp_all
    have "complete_enqueue st'
            = st'\<lparr>hp := (keep_alive_all c xs h)
                      \<lparr>reference_pending_list := Some (hd xs),
                       Reference_discovered :=
                         (Reference_discovered h)(last xs := reference_pending_list h)\<rparr>\<rparr>"
      using False res(2,3,5)
      by (simp add: complete_enqueue_def swap_reference_pending_list_def
          BarrierEnqueueDiscoveredFieldClosure_enqueue_def oop_store_def hd'
          keep_alive_all_frame)
    then show ?thesis
      using False res
      by (simp add: process_final_keep_alive_work_def DiscoveredList_clear_def Let_def)
  qed
qed

section \<open>The loop that drops references from a discovered list\<close>

lemma is_list_unlink:
  assumes l: "is_list d l (ks @ y # ys)" and dist: "distinct (ks @ y # ys)"
    and max: "length (ks @ y # ys) \<le> SIZE_MAX"
  shows "is_list
           (if ks = [] then d(y := None)
            else d(y := None, last ks := (if ys = [] then Some (last ks) else Some (hd ys))))
           (dec_length 1
              (if ks = [] then l\<lparr>head := (if ys = [] then None else Some (hd ys))\<rparr> else l))
           (ks @ ys)"
proof -
  have ch: "chain d (ks @ y # ys) (Some (last (y # ys)))" using l by (simp add: is_list_def)
  then have chk: "chain d ks (Some y)" and chy: "chain d (y # ys) (Some (last (y # ys)))"
    by (simp_all add: chain_append)
  have chys: "chain d ys (Some (last ys))" using chain_tail[OF chy] by (cases ys) simp_all
  have y_ks: "y \<notin> set ks" and y_ys: "y \<notin> set ys" using dist by auto
  have lenl: "len l = length (ks @ y # ys)" using l by (simp add: is_list_def)
  have "size_t_sub (len l) 1 = len l - 1"
    using max lenl by (intro size_t_sub_small) simp_all
  then have len': "len (dec_length 1 l') = length (ks @ ys)" if "len l' = len l" for l'
    using that lenl by (simp add: dec_length_def)
  show ?thesis
  proof (cases "ks = []")
    case True
    have "chain (d(y := None)) ys (Some (last ys))" using chys y_ys by (simp add: chain_frame)
    then show ?thesis
      using True len'[of "l\<lparr>head := (if ys = [] then None else Some (hd ys))\<rparr>"]
      by (cases ys) (simp_all add: is_list_def dec_length_def)
  next
    case False
    define t where "t = (if ys = [] then Some (last ks) else Some (hd ys))"
    have "last ks \<in> set ks" using False by simp
    then have lk: "last ks \<notin> set ys" using dist by auto
    have "chain (d(y := None)) ks (Some y)" using chk y_ks by (simp add: chain_frame)
    then have c1: "chain (d(y := None, last ks := t)) ks t"
      using False dist by (intro chain_retarget) simp_all
    have "chain (d(y := None)) ys (Some (last ys))" using chys y_ys by (simp add: chain_frame)
    then have c2: "chain (d(y := None, last ks := t)) ys (Some (last ys))"
      using lk by (simp add: chain_frame)
    have c: "chain (d(y := None, last ks := t)) (ks @ ys) (Some (last (ks @ ys)))"
      using c1 c2 False by (cases "ys = []") (simp_all add: chain_append t_def)
    have hdl: "head l = Some (hd ks)" using l False by (cases ks) (simp_all add: is_list_def)
    have "head (dec_length 1 l) = (case ks @ ys of [] \<Rightarrow> None | x # _ \<Rightarrow> Some x)"
      using False hdl by (cases ks) (simp_all add: dec_length_def)
    then show ?thesis
      using False c len'[of l] by (simp add: is_list_def t_def)
  qed
qed

lemma remove_at_cursor:
  assumes cur: "cursor_at st ks (y # ys)"
    and loaded: "current_discovered_addr (iter st) = Some (discovered_addr_raw y)"
      "next_discovered (iter st) = Reference_discovered (hp st) y"
    and max: "length (ks @ y # ys) \<le> SIZE_MAX" "removed (iter st) < SIZE_MAX"
  shows "\<exists>st2. remove fl st = Inr st2
           \<and> iter st2 = (iter st)\<lparr>removed := removed (iter st) + 1\<rparr>
           \<and> is_list (Reference_discovered (hp st2)) (refs_list st2) (ks @ ys)
           \<and> marking (hp st2) = marking (hp st) \<and> same_fields (hp st) (hp st2)
           \<and> (\<forall>a. a \<notin> set (ks @ y # ys) \<longrightarrow>
                  Reference_discovered (hp st2) a = Reference_discovered (hp st) a)"
proof -
  let ?d = "Reference_discovered (hp st)"
  have l: "is_list ?d (refs_list st) (ks @ y # ys)" and dist: "distinct (ks @ y # ys)"
    and c: "current_discovered (iter st) = Some y"
    and p: "prev_discovered (iter st) = (if ks = [] then None else Some (last ks))"
    and pa: "prev_discovered_addr (iter st)
               = (if ks = [] then adr_head else discovered_addr_raw (last ks))"
    using cur by (simp_all add: cursor_at_def)
  have "chain ?d (ks @ y # ys) (Some (last (y # ys)))" using l by (simp add: is_list_def)
  then have chy: "chain ?d (y # ys) (Some (last (y # ys)))" by (simp add: chain_append)
  have dy: "?d y = (case ys of [] \<Rightarrow> Some y | z # _ \<Rightarrow> Some z)"
    using chain_hd_field[OF chy] by (cases ys) simp_all
  define new_next where
    "new_next = (if ys = [] then (if ks = [] then None else Some (last ks)) else Some (hd ys))"
  have nn: "(if next_discovered (iter st) = current_discovered (iter st)
             then prev_discovered (iter st) else next_discovered (iter st)) = new_next"
    using dist by (cases ys) (auto simp: loaded c dy p new_next_def)
  have "removed (iter st) + 1 \<le> SIZE_MAX" using max(2) by simp
  then have r1: "size_t_add (removed (iter st)) 1 = removed (iter st) + 1"
    by (rule size_t_add_small)
  define d' where
    "d' = (if ks = [] then ?d(y := None)
           else ?d(y := None, last ks := (if ys = [] then Some (last ks) else Some (hd ys))))"
  define l' where
    "l' = dec_length 1
            (if ks = [] then (refs_list st)\<lparr>head := (if ys = [] then None else Some (hd ys))\<rparr>
             else refs_list st)"
  have il: "is_list d' l' (ks @ ys)"
    unfolding d'_def l'_def using l dist max(1) by (rule is_list_unlink)
  define st2 where
    "st2 = \<lparr>iter = (iter st)\<lparr>removed := removed (iter st) + 1\<rparr>, refs_list = l',
            hp = (hp st)\<lparr>Reference_discovered := d'\<rparr>\<rparr>"
  define sa where "sa = oop_store (prev_discovered_addr (iter st)) new_next
                          (oop_store (discovered_addr_raw y) None st)"
  have na: "\<not> (ASSERT fl \<and> current_discovered (iter st) = None)" using c by simp
  have rm0: "remove fl st
               = Inr (sa\<lparr>iter := (iter st)\<lparr>removed := removed (iter st) + 1\<rparr>,
                         refs_list := dec_length 1 (refs_list sa)\<rparr>)"
    unfolding remove_def Let_def
    by (simp only: na if_False loaded(1) option.case nn r1 sa_def)
  have sa_hp: "hp sa = (hp st)\<lparr>Reference_discovered := d'\<rparr>"
    by (cases "ks = []") (simp_all add: sa_def oop_store_def pa new_next_def d'_def)
  have "refs_list sa = (if ks = [] then (refs_list st)\<lparr>head := (if ys = [] then None else Some (hd ys))\<rparr>
             else refs_list st)"
    by (cases "ks = []") (simp_all add: sa_def oop_store_def pa new_next_def)
  then have sa_l: "dec_length 1 (refs_list sa) = l'"
    by (simp only: l'_def)
  have "sa\<lparr>iter := (iter st)\<lparr>removed := removed (iter st) + 1\<rparr>,
            refs_list := dec_length 1 (refs_list sa)\<rparr> = st2"
    unfolding st2_def by (rule iteration.equality) (insert sa_hp sa_l, simp_all)
  then have rm: "remove fl st = Inr st2" using rm0 by simp
  have fr: "\<forall>a. a \<notin> set (ks @ y # ys) \<longrightarrow> d' a = ?d a"
    by (auto simp: d'_def)
  show ?thesis
    using rm il fr by (simp add: st2_def marking_def same_fields_def)
qed

lemma cursor_after_move:
  assumes "is_list (Reference_discovered (hp st)) (refs_list st) (ks @ ys)"
    and "distinct (ks @ ys)"
    and "current_discovered (iter st) = Some y"
    and "next_discovered (iter st) = (case ys of [] \<Rightarrow> Some y | z # _ \<Rightarrow> Some z)"
    and "y \<notin> set ys"
    and "prev_discovered (iter st) = (if ks = [] then None else Some (last ks))"
    and "prev_discovered_addr (iter st)
           = (if ks = [] then adr_head else discovered_addr_raw (last ks))"
  shows "cursor_at (move_to_next st) ks ys"
  using assms by (cases ys) (auto simp: cursor_at_def move_to_next_def Let_def)

lemma move_to_next_frame:
  "hp (move_to_next st) = hp st" "refs_list (move_to_next st) = refs_list st"
  "removed (iter (move_to_next st)) = removed (iter st)"
  by (simp_all add: move_to_next_def Let_def)

lemma drop_loop_step:
  assumes cur: "cursor_at st ks (y # ys)"
    and max: "length (ks @ y # ys) \<le> SIZE_MAX" "removed (iter st) < SIZE_MAX"
    and chk: "ASSERT fl \<and> \<not> conc \<longrightarrow> Reference_referent (hp st) y \<noteq> None"
  shows "\<exists>st'. process_discovered_list_work_loop fl c conc False st
                 = process_discovered_list_work_loop fl c conc False st'
           \<and> cursor_at st' (if kept c y (marking (hp st)) then ks @ [y] else ks) ys
           \<and> removed (iter st')
               = removed (iter st) + (if kept c y (marking (hp st)) then 0 else 1)
           \<and> marking (hp st') = drop_visit c y (marking (hp st))
           \<and> same_fields (hp st) (hp st')
           \<and> (\<forall>a. a \<notin> set (ks @ y # ys) \<longrightarrow>
                  Reference_discovered (hp st') a = Reference_discovered (hp st) a)"
proof -
  let ?d = "Reference_discovered (hp st)"
  have l: "is_list ?d (refs_list st) (ks @ y # ys)" and dist: "distinct (ks @ y # ys)"
    and c: "current_discovered (iter st) = Some y"
    and p: "prev_discovered (iter st) = (if ks = [] then None else Some (last ks))"
    and pa: "prev_discovered_addr (iter st)
               = (if ks = [] then adr_head else discovered_addr_raw (last ks))"
    using cur by (simp_all add: cursor_at_def)
  have "chain ?d (ks @ y # ys) (Some (last (y # ys)))" using l by (simp add: is_list_def)
  then have chy: "chain ?d (y # ys) (Some (last (y # ys)))" by (simp add: chain_append)
  have dy: "?d y = (case ys of [] \<Rightarrow> Some y | z # _ \<Rightarrow> Some z)"
    using chain_hd_field[OF chy] by (cases ys) simp_all
  have y_ys: "y \<notin> set ys" using dist by simp
  define st1 where "st1 = st\<lparr>iter := (iter st)
                      \<lparr>current_discovered_addr := Some (discovered_addr_raw y),
                       next_discovered := ?d y,
                       referent := Reference_referent (hp st) y\<rparr>\<rparr>"
  have ld: "load_ptrs fl conc st = Inr st1"
    using c chk by (auto simp: load_ptrs_def st1_def Let_def)
  have hn: "has_next st" using c by (simp add: has_next_def)
  have cur1: "cursor_at st1 ks (y # ys)" using cur by (simp add: cursor_at_def st1_def)
  have st1_f: "hp st1 = hp st" "refs_list st1 = refs_list st"
    "current_discovered_addr (iter st1) = Some (discovered_addr_raw y)"
    "next_discovered (iter st1) = Reference_discovered (hp st1) y"
    "removed (iter st1) = removed (iter st)"
    "referent (iter st1) = Reference_referent (hp st) y"
    "current_discovered (iter st1) = Some y"
    using c by (simp_all add: st1_def)
  show ?thesis
  proof (cases "kept c y (marking (hp st))")
    case True
    then obtain r where r: "Reference_referent (hp st) y = Some r"
      and dead: "\<not> is_alive c (gc (hp st)) (Some r)"
      by (auto simp: kept_def marking_def split: option.splits)
    define st3 where
      "st3 = move_to_next (st1\<lparr>iter := (iter st1)\<lparr>prev_discovered_addr := discovered_addr_raw y,
                                                    prev_discovered := Some y\<rparr>\<rparr>)"
    have nx: "iter_next st1 = Inr st3"
      by (simp add: iter_next_def st1_f Let_def st3_def)
    have rn: "referent (iter st1) \<noteq> None" using r by (simp add: st1_f)
    have na: "\<not> is_referent_alive c st1"
      using dead r by (simp add: is_referent_alive_def st1_f)
    have step: "process_discovered_list_work_loop fl c conc False st
                  = process_discovered_list_work_loop fl c conc False st3"
      by (subst process_discovered_list_work_loop.simps)
        (simp only: hn if_True ld sum.case rn na if_False nx)
    have "cursor_at st3 (ks @ [y]) ys"
      unfolding st3_def using l dist c dy y_ys
      by (intro cursor_after_move[where y = y]) (simp_all add: st1_def)
    moreover have "hp st3 = hp st" "removed (iter st3) = removed (iter st)"
      by (simp_all add: st3_def move_to_next_frame st1_f)
    moreover have "drop_visit c y (marking (hp st)) = marking (hp st)"
      using r dead by (simp add: drop_visit_def marking_def)
    ultimately show ?thesis
      using True step by (intro exI[of _ st3]) (simp add: same_fields_def)
  next
    case False
    have max1: "removed (iter st1) < SIZE_MAX" using max(2) by (simp add: st1_f)
    obtain st2 where rm: "remove fl st1 = Inr st2"
      and i2: "iter st2 = (iter st1)\<lparr>removed := removed (iter st1) + 1\<rparr>"
      and l2: "is_list (Reference_discovered (hp st2)) (refs_list st2) (ks @ ys)"
      and m2: "marking (hp st2) = marking (hp st1)" and s2: "same_fields (hp st1) (hp st2)"
      and f2: "\<forall>a. a \<notin> set (ks @ y # ys) \<longrightarrow>
                  Reference_discovered (hp st2) a = Reference_discovered (hp st1) a"
      using remove_at_cursor[OF cur1 st1_f(3,4) max(1) max1, of fl] by blast
    have d2: "distinct (ks @ ys)" using dist by simp
    have i2': "current_discovered (iter st2) = Some y"
      "next_discovered (iter st2) = (case ys of [] \<Rightarrow> Some y | z # _ \<Rightarrow> Some z)"
      "prev_discovered (iter st2) = (if ks = [] then None else Some (last ks))"
      "prev_discovered_addr (iter st2)
         = (if ks = [] then adr_head else discovered_addr_raw (last ks))"
      "removed (iter st2) = removed (iter st) + 1"
      using c p pa dy by (simp_all add: i2 st1_def)
    show ?thesis
    proof (cases "Reference_referent (hp st) y")
      case None
      have rn: "referent (iter st1) = None" using None by (simp add: st1_f)
      have step: "process_discovered_list_work_loop fl c conc False st
                    = process_discovered_list_work_loop fl c conc False (move_to_next st2)"
        by (subst process_discovered_list_work_loop.simps)
          (simp only: hn if_True ld sum.case rn rm simp_thms)
      have "cursor_at (move_to_next st2) ks ys"
        using l2 d2 i2'(1,2) y_ys i2'(3,4) by (rule cursor_after_move)
      moreover have "drop_visit c y (marking (hp st)) = marking (hp st)"
        using None by (simp add: drop_visit_def marking_def)
      ultimately show ?thesis
        using False step m2 s2 f2 i2'(5)
        by (intro exI[of _ "move_to_next st2"]) (simp add: move_to_next_frame st1_f)
    next
      case (Some r)
      then have alive: "is_alive c (gc (hp st)) (Some r)"
        using False by (simp add: kept_def marking_def)
      have rn: "referent (iter st1) \<noteq> None" using Some by (simp add: st1_f)
      have al: "is_referent_alive c st1"
        using alive Some by (simp add: is_referent_alive_def st1_f)
      obtain g r' where k: "keep_alive c (gc (hp st)) (Some r) = (g, r')"
        by (cases "keep_alive c (gc (hp st)) (Some r)")
      have g2: "gc (hp st2) = gc (hp st)" "Reference_referent (hp st2) = Reference_referent (hp st)"
        using m2 by (simp_all add: marking_def st1_f)
      define st3 where
        "st3 = st2\<lparr>hp := (hp st2)\<lparr>gc := g,
                       Reference_referent := (Reference_referent (hp st2))(y := r')\<rparr>\<rparr>"
      have mk: "make_referent_alive c st2 = Inr st3"
        using i2'(1) k Some by (simp add: make_referent_alive_def g2 st3_def)
      have step: "process_discovered_list_work_loop fl c conc False st
                    = process_discovered_list_work_loop fl c conc False (move_to_next st3)"
        by (subst process_discovered_list_work_loop.simps)
          (simp only: hn if_True ld sum.case rn al if_False rm mk)
      have "cursor_at (move_to_next st3) ks ys"
        using l2 d2 i2'(1,2) y_ys i2'(3,4)
        by (intro cursor_after_move[where y = y]) (simp_all add: st3_def)
      moreover have "marking (hp st3) = drop_visit c y (marking (hp st))"
        using Some alive k by (simp add: drop_visit_def marking_def st3_def g2)
      moreover have "same_fields (hp st) (hp st3)"
        using s2 by (simp add: same_fields_def st3_def st1_f)
      moreover have "\<forall>a. a \<notin> set (ks @ y # ys) \<longrightarrow>
                       Reference_discovered (hp st3) a = Reference_discovered (hp st) a"
        using f2 by (simp add: st3_def st1_f)
      moreover have "removed (iter st3) = removed (iter st) + 1"
        using i2'(5) by (simp add: st3_def)
      ultimately show ?thesis
        using False step
        by (intro exI[of _ "move_to_next st3"]) (simp add: move_to_next_frame)
    qed
  qed
qed

lemma drop_visit_other: "a \<noteq> y \<Longrightarrow> snd (drop_visit c y v) a = snd v a"
  by (auto simp: drop_visit_def split: option.splits prod.splits)

lemma drop_visit_kept: "kept c y v \<Longrightarrow> drop_visit c y v = v"
  by (auto simp: drop_visit_def kept_def split: option.splits)

lemma drop_pass_other: "a \<notin> set ys \<Longrightarrow> snd (drop_pass c ys v) a = snd v a"
  by (induction ys arbitrary: v) (simp_all add: drop_visit_other)

lemma survivors_subset: "set (survivors c ys v) \<subseteq> set ys"
proof (induction ys arbitrary: v)
  case Nil
  then show ?case by simp
next
  case (Cons y ys)
  have "set (survivors c ys v) \<subseteq> set ys"
    and "set (survivors c ys (drop_visit c y v)) \<subseteq> set ys"
    by (rule Cons.IH)+
  then show ?case by auto
qed

lemma survivors_referent:
  "a \<in> set (survivors c ys v) \<Longrightarrow> distinct ys \<Longrightarrow>
     snd (drop_pass c ys v) a = snd v a \<and> snd v a \<noteq> None"
proof (induction ys arbitrary: v)
  case Nil
  then show ?case by simp
next
  case (Cons y ys)
  show ?case
  proof (cases "kept c y v")
    case True
    note k = drop_visit_kept[OF True]
    show ?thesis
    proof (cases "a = y")
      case True
      then have "a \<notin> set ys" using Cons.prems(2) by simp
      then have "snd (drop_pass c ys v) a = snd v a" by (rule drop_pass_other)
      moreover have "snd v a \<noteq> None"
        using \<open>kept c y v\<close> True by (auto simp: kept_def split: option.splits)
      ultimately show ?thesis by (simp add: k)
    next
      case False
      then have "a \<in> set (survivors c ys v)" using Cons.prems(1) True \<open>kept c y v\<close> by simp
      then show ?thesis using Cons.IH[of v] Cons.prems(2) by (simp add: k)
    qed
  next
    case False
    then have m: "a \<in> set (survivors c ys (drop_visit c y v))" using Cons.prems(1) by simp
    then have "a \<in> set ys" using survivors_subset by blast
    then have "a \<noteq> y" using Cons.prems(2) by auto
    then have "snd (drop_visit c y v) a = snd v a" by (rule drop_visit_other)
    then show ?thesis using Cons.IH[OF m] Cons.prems(2) by simp
  qed
qed

lemma survivors_dead:
  "a \<in> set ys \<Longrightarrow> distinct ys \<Longrightarrow> snd v a = Some r \<Longrightarrow> \<forall>g. \<not> is_alive c g (Some r)
     \<Longrightarrow> a \<in> set (survivors c ys v)"
proof (induction ys arbitrary: v)
  case Nil
  then show ?case by simp
next
  case (Cons y ys)
  show ?case
  proof (cases "a = y")
    case True
    then have "kept c y v" using Cons.prems(3,4) by (simp add: kept_def)
    then show ?thesis using True by simp
  next
    case False
    then have a: "a \<in> set ys" using Cons.prems(1) by simp
    have "snd (drop_visit c y v) a = Some r"
      using False Cons.prems(3) by (simp add: drop_visit_other)
    then have "a \<in> set (survivors c ys (drop_visit c y v))"
      using a Cons.prems(2,4) by (intro Cons.IH) simp_all
    moreover have "a \<in> set (survivors c ys v)"
      using a Cons.prems(2,3,4) by (intro Cons.IH) simp_all
    ultimately show ?thesis by simp
  qed
qed

lemma drop_loop:
  assumes "cursor_at st ks ys" "length (ks @ ys) \<le> SIZE_MAX"
    "removed (iter st) + length ys \<le> SIZE_MAX"
    "ASSERT fl \<and> \<not> conc \<longrightarrow> (\<forall>a \<in> set ys. Reference_referent (hp st) a \<noteq> None)"
  shows "\<exists>st'. process_discovered_list_work_loop fl c conc False st = Some (Inr st')
           \<and> is_list (Reference_discovered (hp st')) (refs_list st')
                (ks @ survivors c ys (marking (hp st)))
           \<and> removed (iter st') + length (survivors c ys (marking (hp st)))
               = removed (iter st) + length ys
           \<and> marking (hp st') = drop_pass c ys (marking (hp st))
           \<and> same_fields (hp st) (hp st')
           \<and> (\<forall>a. a \<notin> set (ks @ ys) \<longrightarrow>
                  Reference_discovered (hp st') a = Reference_discovered (hp st) a)"
  using assms
proof (induction ys arbitrary: st ks)
  case Nil
  then have "\<not> has_next st" by (simp add: cursor_at_def has_next_def)
  then have "process_discovered_list_work_loop fl c conc False st = Some (Inr st)"
    by (subst process_discovered_list_work_loop.simps) simp
  moreover have "is_list (Reference_discovered (hp st)) (refs_list st) ks"
    using Nil.prems(1) by (simp add: cursor_at_def)
  ultimately show ?case by (simp add: same_fields_def)
next
  case (Cons y ys)
  let ?v = "marking (hp st)"
  let ?ks' = "if kept c y ?v then ks @ [y] else ks"
  have m1: "length (ks @ y # ys) \<le> SIZE_MAX" using Cons.prems(2) by simp
  have m2: "removed (iter st) < SIZE_MAX" using Cons.prems(3) by simp
  have ck: "ASSERT fl \<and> \<not> conc \<longrightarrow> Reference_referent (hp st) y \<noteq> None"
    using Cons.prems(4) by simp
  obtain st1 where step:
    "process_discovered_list_work_loop fl c conc False st
       = process_discovered_list_work_loop fl c conc False st1"
    and c1: "cursor_at st1 ?ks' ys"
    and r1: "removed (iter st1) = removed (iter st) + (if kept c y ?v then 0 else 1)"
    and v1: "marking (hp st1) = drop_visit c y ?v"
    and s1: "same_fields (hp st) (hp st1)"
    and f1: "\<forall>a. a \<notin> set (ks @ y # ys) \<longrightarrow>
                Reference_discovered (hp st1) a = Reference_discovered (hp st) a"
    using drop_loop_step[OF Cons.prems(1) m1 m2 ck, of c] by blast
  have dist: "distinct (ks @ y # ys)" using Cons.prems(1) by (simp add: cursor_at_def)
  have p2: "length (?ks' @ ys) \<le> SIZE_MAX" using Cons.prems(2) by simp
  have p3: "removed (iter st1) + length ys \<le> SIZE_MAX" using Cons.prems(3) r1 by simp
  have p4: "ASSERT fl \<and> \<not> conc \<longrightarrow> (\<forall>a \<in> set ys. Reference_referent (hp st1) a \<noteq> None)"
  proof (intro impI ballI)
    fix a assume h: "ASSERT fl \<and> \<not> conc" and a: "a \<in> set ys"
    then have "Reference_referent (hp st) a \<noteq> None" using Cons.prems(4) by simp
    moreover have "a \<noteq> y" using a dist by auto
    then have "snd (marking (hp st1)) a = snd ?v a" unfolding v1 by (rule drop_visit_other)
    ultimately show "Reference_referent (hp st1) a \<noteq> None" by (simp add: marking_def)
  qed
  obtain st' where res:
    "process_discovered_list_work_loop fl c conc False st1 = Some (Inr st')"
    "is_list (Reference_discovered (hp st')) (refs_list st')
       (?ks' @ survivors c ys (marking (hp st1)))"
    "removed (iter st') + length (survivors c ys (marking (hp st1)))
       = removed (iter st1) + length ys"
    "marking (hp st') = drop_pass c ys (marking (hp st1))"
    "same_fields (hp st1) (hp st')"
    "\<forall>a. a \<notin> set (?ks' @ ys) \<longrightarrow>
        Reference_discovered (hp st') a = Reference_discovered (hp st1) a"
    using Cons.IH[OF c1 p2 p3 p4] by blast
  have sv: "ks @ survivors c (y # ys) ?v = ?ks' @ survivors c ys (marking (hp st1))"
    unfolding v1 by (simp add: drop_visit_kept)
  have e1: "is_list (Reference_discovered (hp st')) (refs_list st')
              (ks @ survivors c (y # ys) ?v)"
    using res(2) by (simp only: sv)
  have "length (survivors c (y # ys) ?v)
          = (if kept c y ?v then 1 else 0) + length (survivors c ys (marking (hp st1)))"
    unfolding v1 by (simp add: drop_visit_kept)
  then have e2: "removed (iter st') + length (survivors c (y # ys) ?v)
                   = removed (iter st) + length (y # ys)"
    using res(3) r1 by simp
  have e3: "marking (hp st') = drop_pass c (y # ys) ?v" using res(4) v1 by simp
  have e4: "same_fields (hp st) (hp st')" using s1 res(5) by (simp add: same_fields_def)
  have e5: "\<forall>a. a \<notin> set (ks @ y # ys) \<longrightarrow>
              Reference_discovered (hp st') a = Reference_discovered (hp st) a"
  proof (intro allI impI)
    fix a assume a: "a \<notin> set (ks @ y # ys)"
    then have "a \<notin> set (?ks' @ ys)" by simp
    then have "Reference_discovered (hp st') a = Reference_discovered (hp st1) a"
      using res(6) by blast
    then show "Reference_discovered (hp st') a = Reference_discovered (hp st) a"
      using f1 a by simp
  qed
  show ?case unfolding step using res(1) e1 e2 e3 e4 e5 by blast
qed

lemma process_discovered_list_work_keeps:
  assumes l: "is_list (Reference_discovered h) l xs" and d: "distinct xs"
    and max: "length xs \<le> SIZE_MAX"
    and chk: "ASSERT fl \<and> \<not> conc \<longrightarrow> (\<forall>a \<in> set xs. Reference_referent h a \<noteq> None)"
  shows "\<exists>n l' h'. process_discovered_list_work fl c conc l h False = Some (Inr (n, l', h'))
           \<and> is_list (Reference_discovered h') l' (survivors c xs (marking h))
           \<and> n + length (survivors c xs (marking h)) = length xs
           \<and> marking h' = drop_pass c xs (marking h)
           \<and> same_fields h h'
           \<and> (\<forall>a. a \<notin> set xs \<longrightarrow> Reference_discovered h' a = Reference_discovered h a)"
proof -
  let ?st = "\<lparr>iter = DiscoveredListIterator_ctor l, refs_list = l, hp = h\<rparr>"
  have hd: "head l = (case xs of [] \<Rightarrow> None | y # _ \<Rightarrow> Some y)"
    using l by (simp add: is_list_def)
  have c0: "cursor_at ?st [] xs"
    using l d hd by (simp add: cursor_at_def DiscoveredListIterator_ctor_def)
  have m0: "length ([] @ xs) \<le> SIZE_MAX" using max by simp
  have r0: "removed (iter ?st) + length xs \<le> SIZE_MAX"
    using max by (simp add: DiscoveredListIterator_ctor_def)
  have k0: "ASSERT fl \<and> \<not> conc \<longrightarrow> (\<forall>a \<in> set xs. Reference_referent (hp ?st) a \<noteq> None)"
    using chk by simp
  obtain st' where res:
    "process_discovered_list_work_loop fl c conc False ?st = Some (Inr st')"
    "is_list (Reference_discovered (hp st')) (refs_list st') ([] @ survivors c xs (marking (hp ?st)))"
    "removed (iter st') + length (survivors c xs (marking (hp ?st)))
       = removed (iter ?st) + length xs"
    "marking (hp st') = drop_pass c xs (marking (hp ?st))"
    "same_fields (hp ?st) (hp st')"
    "\<forall>a. a \<notin> set ([] @ xs) \<longrightarrow>
        Reference_discovered (hp st') a = Reference_discovered (hp ?st) a"
    using drop_loop[OF c0 m0 r0 k0, of c] by blast
  have "process_discovered_list_work fl c conc l h False
          = Some (Inr (removed (iter st'), refs_list st', hp st'))"
    by (simp add: process_discovered_list_work_def res(1))
  then show ?thesis
    using res(2-6) by (simp add: DiscoveredListIterator_ctor_def)
qed

section \<open>The example machines of the Final references, evaluated\<close>

lemma upt4: "[0..<4] = [0, 1, 2, 3]" by (simp add: upt_rec)

lemma example_final_vm_eq:
  "example_final_vm =
     \<lparr>discovery_is_concurrent = True, discovery_is_mt = True, discovering_refs = False,
      num_queues = 4, max_num_queues = 4, next_id = 0,
      discoveredSoftRefs = [\<lparr>head = None, len = 0\<rparr>, \<lparr>head = None, len = 0\<rparr>,
                              \<lparr>head = None, len = 0\<rparr>, \<lparr>head = None, len = 0\<rparr>],
      discoveredWeakRefs = [\<lparr>head = None, len = 0\<rparr>, \<lparr>head = None, len = 0\<rparr>,
                              \<lparr>head = None, len = 0\<rparr>, \<lparr>head = None, len = 0\<rparr>],
      discoveredFinalRefs = [\<lparr>head = Some 1, len = 2\<rparr>, \<lparr>head = None, len = 0\<rparr>,
                              \<lparr>head = None, len = 0\<rparr>, \<lparr>head = None, len = 0\<rparr>],
      discoveredPhantomRefs = [\<lparr>head = None, len = 0\<rparr>, \<lparr>head = None, len = 0\<rparr>,
                              \<lparr>head = None, len = 0\<rparr>, \<lparr>head = None, len = 0\<rparr>],
      soft_ref_timestamp_clock = 0,
      heap = \<lparr>Reference_referent = (\<lambda>_. None)(1 := Some 100, 2 := Some 200),
              Reference_discovered = (\<lambda>_. None)(1 := Some 2, 2 := Some 2),
              Reference_next = (\<lambda>_. None), SoftReference_clock = 0,
              reference_pending_list = None, gc = {200}\<rparr>\<rparr>"
  by (simp add: example_final_vm_def example_vm_eq)

lemma work_on_empty_list:
  "process_discovered_list_work f c conc \<lparr>head = None, len = 0\<rparr> h b
     = Some (Inr (0, \<lparr>head = None, len = 0\<rparr>, h))"
  by (subst process_discovered_list_work_def, subst process_discovered_list_work_loop.simps)
    (simp add: has_next_def DiscoveredListIterator_ctor_def complete_enqueue_def
      DiscoveredList_clear_def)

lemma example_final_pass:
  "process_discovered_list_work example_flags example_closures True
     \<lparr>head = Some 1, len = 2\<rparr> (heap example_final_vm) False
   = Some (Inr (1, \<lparr>head = Some 1, len = 1\<rparr>,
        (heap example_final_vm)\<lparr>Reference_discovered := (\<lambda>_. None)(1 := Some 1)\<rparr>))"
  by (simp add: fun_eq_iff process_discovered_list_work_def process_discovered_list_work_loop.simps
      DiscoveredListIterator_ctor_def has_next_def load_ptrs_def remove_def
      make_referent_alive_def iter_next_def move_to_next_def is_referent_alive_def
      oop_store_def dec_length_def size_t_add_def size_t_sub_def SIZE_MAX_def Let_def
      example_final_vm_eq example_flags_def example_closures_def marked_def mark_def)

lemma example_final_phase:
  "process_soft_weak_final_refs example_flags example_closures (Some 4)
     (example_final_vm, example_phase_times)
   = Some (Inr (example_final_after,
        example_phase_times\<lparr>ref_dropped := (\<lambda>_. 0)(REF_FINAL := 1)\<rparr>))"
proof -
  have h: "heap example_final_vm
             = \<lparr>Reference_referent = (\<lambda>_. None)(1 := Some 100, 2 := Some 200),
                Reference_discovered = (\<lambda>_. None)(1 := Some 2, 2 := Some 2),
                Reference_next = (\<lambda>_. None), SoftReference_clock = 0,
                reference_pending_list = None, gc = {200}\<rparr>"
    by (simp add: example_final_vm_eq)
  note p = example_final_pass[unfolded h]
  show ?thesis
    using p
    by (simp add: process_soft_weak_final_refs_def RefProcMTDegreeAdjuster_ctor_def
        RefProcMTDegreeAdjuster_dtor_def ergo_proc_thread_count_def use_max_threads_def
        set_active_mt_degree_def num_active_workers_def processing_is_mt_def run_task_def
        then_do_def returns_def process_discovered_list_def work_on_empty_list
        do_void_def verify_total_count_zero_def total_count_def add_ref_dropped_def
        size_t_add_def SIZE_MAX_def MIN3_def MIN2_def Let_def upt4
        example_final_after_def example_final_vm_eq example_phase_times_def example_flags_def
        example_closures_def fun_upd_twist fun_eq_iff)
qed

lemma example_final_list:
  "is_list (Reference_discovered (heap example_final_vm))
     (discoveredFinalRefs example_final_vm ! 0) [1, 2]"
  by (simp add: example_final_vm_eq is_list_def)

lemma example_final_survivors:
  "survivors example_closures [1, 2] (marking (heap example_final_vm)) = [1]"
  by (simp add: example_final_vm_eq marking_def kept_def drop_visit_def
      example_closures_def marked_def mark_def Let_def)

lemma kept_after_drop:
  assumes st: "\<forall>g r r'. is_alive c g (Some r)
                 \<longrightarrow> is_alive c (fst (keep_alive c g (Some r))) r' = is_alive c g r'"
    and nk: "\<not> kept c y v" and ne: "a \<noteq> y"
  shows "kept c a (drop_visit c y v) = kept c a v"
proof (cases "snd v y")
  case None
  then show ?thesis by (simp add: drop_visit_def)
next
  case (Some r)
  then have al: "is_alive c (fst v) (Some r)" using nk by (simp add: kept_def)
  obtain g r' where k: "keep_alive c (fst v) (Some r) = (g, r')"
    by (cases "keep_alive c (fst v) (Some r)")
  have dv: "drop_visit c y v = (g, (snd v)(y := r'))"
    using Some al k by (simp add: drop_visit_def)
  have "is_alive c g x = is_alive c (fst v) x" for x
    using st al k by (metis fst_conv)
  then show ?thesis using ne by (simp add: dv kept_def split: option.splits)
qed

lemma survivors_filter:
  assumes st: "\<forall>g r r'. is_alive c g (Some r)
                 \<longrightarrow> is_alive c (fst (keep_alive c g (Some r))) r' = is_alive c g r'"
  shows "distinct ys \<Longrightarrow> survivors c ys v = filter (\<lambda>a. kept c a v) ys"
proof (induction ys arbitrary: v)
  case Nil
  show ?case by simp
next
  case (Cons y ys)
  have d: "distinct ys" and y: "y \<notin> set ys" using Cons.prems by simp_all
  show ?case
  proof (cases "kept c y v")
    case True
    then show ?thesis using Cons.IH[OF d, of v] by simp
  next
    case False
    have "survivors c ys (drop_visit c y v)
            = filter (\<lambda>a. kept c a (drop_visit c y v)) ys"
      using d by (rule Cons.IH)
    also have "\<dots> = filter (\<lambda>a. kept c a v) ys"
    proof (rule filter_cong[OF refl])
      fix a assume "a \<in> set ys"
      then have "a \<noteq> y" using y by auto
      with st False show "kept c a (drop_visit c y v) = kept c a v"
        by (rule kept_after_drop)
    qed
    finally show ?thesis using False by simp
  qed
qed

lemma kept_marking:
  "kept c a (marking h)
     = (Reference_referent h a \<noteq> None \<and> \<not> is_alive c (gc h) (Reference_referent h a))"
  by (auto simp: kept_def marking_def split: option.splits)

section \<open>Properties of the processing of Final references\<close>

text \<open>
  C4, as the code has it. \<^verbatim>\<open>process_discovered_list\<close> passes
  \<^verbatim>\<open>do_enqueue_and_clear = (ref_type != REF_FINAL)\<close>, so the pass over a Final list clears
  nothing and enqueues nothing. The closures are such that keeping alive a referent that is
  alive changes no answer of the liveness predicate. Then, on a well-formed list of distinct
  entries, the pass returns; the list holds afterwards exactly the entries whose referent was
  neither null nor alive before the pass, in their order; the referent field of each of them is
  what it was; and the pending list and the \<^verbatim>\<open>next\<close> fields are what they were.
\<close>

theorem final_references_stay_discovered:
  assumes "worker < length (discoveredFinalRefs s)"
    and "is_list (Reference_discovered (heap s)) (discoveredFinalRefs s ! worker) xs"
    and "distinct xs" and "length xs \<le> SIZE_MAX"
    and "ASSERT fl \<and> \<not> discovery_is_concurrent s \<longrightarrow>
           (\<forall>a \<in> set xs. Reference_referent (heap s) a \<noteq> None)"
    and "\<forall>g r r'. is_alive c g (Some r)
           \<longrightarrow> is_alive c (fst (keep_alive c g (Some r))) r' = is_alive c g r'"
  shows "\<exists>s' pt'. process_discovered_list fl c worker REF_FINAL (s, pt) = Some (Inr (s', pt'))
           \<and> is_list (Reference_discovered (heap s')) (discoveredFinalRefs s' ! worker)
                (filter (\<lambda>a. Reference_referent (heap s) a \<noteq> None
                            \<and> \<not> is_alive c (gc (heap s)) (Reference_referent (heap s) a)) xs)
           \<and> (\<forall>a \<in> set xs.
                 Reference_referent (heap s) a \<noteq> None
                 \<and> \<not> is_alive c (gc (heap s)) (Reference_referent (heap s) a)
                 \<longrightarrow> Reference_referent (heap s') a = Reference_referent (heap s) a)
           \<and> reference_pending_list (heap s') = reference_pending_list (heap s)
           \<and> Reference_next (heap s') = Reference_next (heap s)"
proof -
  let ?stay = "\<lambda>a. Reference_referent (heap s) a \<noteq> None
                    \<and> \<not> is_alive c (gc (heap s)) (Reference_referent (heap s) a)"
  let ?sv = "survivors c xs (marking (heap s))"
  have sv: "?sv = filter ?stay xs"
    using survivors_filter[OF assms(6,3), of "marking (heap s)"]
    by (simp add: kept_marking)
  obtain n l' h' where res:
    "process_discovered_list_work fl c (discovery_is_concurrent s)
       (discoveredFinalRefs s ! worker) (heap s) False = Some (Inr (n, l', h'))"
    "is_list (Reference_discovered h') l' ?sv"
    "marking h' = drop_pass c xs (marking (heap s))"
    "same_fields (heap s) h'"
    using process_discovered_list_work_keeps[OF assms(2,3,4,5), of c] by blast
  define s' where
    "s' = s\<lparr>heap := h', discoveredFinalRefs := (discoveredFinalRefs s)[worker := l']\<rparr>"
  have run: "process_discovered_list fl c worker REF_FINAL (s, pt)
               = Some (Inr (s', add_ref_dropped REF_FINAL n pt))"
    using assms(1) by (simp add: process_discovered_list_def res(1) then_do_def s'_def)
  have 1: "is_list (Reference_discovered (heap s')) (discoveredFinalRefs s' ! worker)
             (filter ?stay xs)"
    using res(2) assms(1) by (simp add: s'_def sv)
  have 2: "\<forall>a \<in> set xs. ?stay a
             \<longrightarrow> Reference_referent (heap s') a = Reference_referent (heap s) a"
  proof (intro ballI impI)
    fix a assume "a \<in> set xs" and "?stay a"
    then have "a \<in> set ?sv" by (simp add: sv)
    then have "snd (drop_pass c xs (marking (heap s))) a = snd (marking (heap s)) a
               \<and> snd (marking (heap s)) a \<noteq> None"
      using assms(3) by (rule survivors_referent)
    moreover have "Reference_referent (heap s') = snd (drop_pass c xs (marking (heap s)))"
      using arg_cong[OF res(3), of snd] by (simp add: s'_def marking_def)
    moreover have "snd (marking (heap s)) = Reference_referent (heap s)"
      by (simp add: marking_def)
    ultimately show "Reference_referent (heap s') a = Reference_referent (heap s) a"
      by simp
  qed
  have 3: "reference_pending_list (heap s') = reference_pending_list (heap s)"
    "Reference_next (heap s') = Reference_next (heap s)"
    using res(4) by (simp_all add: same_fields_def s'_def)
  show ?thesis using run 1 2 3 by blast
qed

theorem final_references_stay_discovered_witness:
  "\<exists>s' pt'. process_discovered_list example_flags example_closures 0 REF_FINAL
               (example_final_vm, example_phase_times) = Some (Inr (s', pt'))
      \<and> is_list (Reference_discovered (heap s')) (discoveredFinalRefs s' ! 0) [1]
      \<and> Reference_referent (heap s') 1 = Some 100
      \<and> reference_pending_list (heap s') = None
      \<and> Reference_next (heap s') = (\<lambda>_. None)"
proof -
  have 1: "0 < length (discoveredFinalRefs example_final_vm)"
    by (simp add: example_final_vm_eq)
  have 2: "distinct [1::nat, 2]" by simp
  have 3: "length [1::nat, 2] \<le> SIZE_MAX" by (simp add: SIZE_MAX_def)
  have 4: "ASSERT example_flags \<and> \<not> discovery_is_concurrent example_final_vm \<longrightarrow>
             (\<forall>a \<in> set [1, 2]. Reference_referent (heap example_final_vm) a \<noteq> None)"
    by (simp add: example_final_vm_eq)
  have 5: "\<forall>g r r'. is_alive example_closures g (Some r)
             \<longrightarrow> is_alive example_closures (fst (keep_alive example_closures g (Some r))) r'
                   = is_alive example_closures g r'"
    by (simp add: example_closures_def marked_def mark_def insert_absorb)
  have f: "filter (\<lambda>a. Reference_referent (heap example_final_vm) a \<noteq> None
                     \<and> \<not> is_alive example_closures (gc (heap example_final_vm))
                            (Reference_referent (heap example_final_vm) a)) [1, 2] = [1]"
    by (simp add: example_final_vm_eq example_closures_def marked_def)
  have r: "Reference_referent (heap example_final_vm) 1 = Some 100"
    "reference_pending_list (heap example_final_vm) = None"
    "Reference_next (heap example_final_vm) = (\<lambda>_. None)"
    "\<not> is_alive example_closures (gc (heap example_final_vm)) (Some 100)"
    by (simp_all add: example_final_vm_eq example_closures_def marked_def)
  show ?thesis
    using final_references_stay_discovered[OF 1 example_final_list 2 3 4 5,
        of example_phase_times]
    unfolding f using r by auto
qed

text \<open>
  C4, as stated, fails: after the whole SoftWeakFinal phase on a machine whose Final queue 0
  holds the reference 1 with the unmarked referent 100 and the reference 2 with the marked
  referent 200, the reference 1 is still on its list, its referent field still holds 100, and
  the pending list is still empty.
\<close>

theorem final_reference_not_cleared_counterexample:
  "process_soft_weak_final_refs example_flags example_closures (Some 4)
     (example_final_vm, example_phase_times)
   = Some (Inr (example_final_after,
        example_phase_times\<lparr>ref_dropped := (\<lambda>_. 0)(REF_FINAL := 1)\<rparr>))
   \<and> discoveredFinalRefs example_final_vm ! 0 = \<lparr>head = Some 1, len = 2\<rparr>
   \<and> Reference_referent (heap example_final_vm) 1 = Some 100
   \<and> \<not> is_alive example_closures (gc (heap example_final_vm)) (Some 100)
   \<and> Reference_referent (heap example_final_after) 1 = Some 100
   \<and> reference_pending_list (heap example_final_after) = None
   \<and> discoveredFinalRefs example_final_after ! 0 = \<lparr>head = Some 1, len = 1\<rparr>"
  using example_final_phase
  by (simp add: example_final_after_def example_final_vm_eq example_closures_def marked_def)

text \<open>
  C5. On a well-formed list of distinct Final references (in builds with assertions: with
  non-null referents and null \<^verbatim>\<open>next\<close> fields, as the loop asserts),
  \<^verbatim>\<open>process_final_keep_alive_work\<close> returns 0, the count of removed entries, and leaves the
  list empty; the keep-alive closure has been applied to the referent of every entry, in the
  order of the list; the \<^verbatim>\<open>next\<close> field of every entry points to the entry itself; and the
  pending list starts with the first entry, runs through the entries in their order, and
  continues with what it held before.
\<close>

theorem final_keep_alive_handles_every_entry:
  assumes "is_list (Reference_discovered h) l xs" and "distinct xs"
    and "ASSERT fl \<longrightarrow>
           (\<forall>a \<in> set xs. Reference_referent h a \<noteq> None \<and> Reference_next h a = None)"
  shows "\<exists>h'. process_final_keep_alive_work fl c l h
                 = Some (Inr (0, \<lparr>head = None, len = 0\<rparr>, h'))
           \<and> gc h' = foldl (\<lambda>g a. fst (keep_alive c g (Reference_referent h a))) (gc h) xs
           \<and> (\<forall>a \<in> set xs. Reference_next h' a = Some a)
           \<and> (xs \<noteq> [] \<longrightarrow>
                 reference_pending_list h' = Some (hd xs)
                 \<and> chain (Reference_discovered h') xs (reference_pending_list h))"
proof (cases "xs = []")
  case True
  then show ?thesis
    using process_final_keep_alive_work_correct[OF assms, of c] by simp
next
  case False
  define h' where
    "h' = (keep_alive_all c xs h)
            \<lparr>Reference_discovered :=
               (Reference_discovered h)(last xs := reference_pending_list h),
             reference_pending_list := Some (hd xs)\<rparr>"
  have run: "process_final_keep_alive_work fl c l h
               = Some (Inr (0, \<lparr>head = None, len = 0\<rparr>, h'))"
    using process_final_keep_alive_work_correct[OF assms, of c] False by (simp add: h'_def)
  have 1: "gc h' = foldl (\<lambda>g a. fst (keep_alive c g (Reference_referent h a))) (gc h) xs"
    using keep_alive_all_gc[OF assms(2), of c h] by (simp add: h'_def)
  have 2: "\<forall>a \<in> set xs. Reference_next h' a = Some a"
    by (simp add: h'_def keep_alive_all_next)
  have "chain (Reference_discovered h) xs (Some (last xs))"
    using assms(1) by (simp add: is_list_def)
  then have "chain ((Reference_discovered h)(last xs := reference_pending_list h)) xs
               (reference_pending_list h)"
    using False assms(2) by (rule chain_retarget)
  then have 3: "chain (Reference_discovered h') xs (reference_pending_list h)"
    by (simp add: h'_def)
  have 4: "reference_pending_list h' = Some (hd xs)" by (simp add: h'_def)
  show ?thesis using run 1 2 3 4 by blast
qed

theorem final_keep_alive_handles_every_entry_witness:
  "\<exists>h'. process_final_keep_alive_work example_flags example_closures
            \<lparr>head = Some 1, len = 2\<rparr> example_keep_alive_heap
          = Some (Inr (0, \<lparr>head = None, len = 0\<rparr>, h'))
      \<and> gc h' = {100, 200}
      \<and> Reference_next h' 1 = Some 1 \<and> Reference_next h' 2 = Some 2
      \<and> reference_pending_list h' = Some 1
      \<and> Reference_discovered h' 1 = Some 2 \<and> Reference_discovered h' 2 = Some 9"
proof -
  have 1: "is_list (Reference_discovered example_keep_alive_heap)
             \<lparr>head = Some 1, len = 2\<rparr> [1, 2]"
    by (simp add: example_keep_alive_heap_def is_list_def)
  have 2: "distinct [1::nat, 2]" by simp
  have 3: "ASSERT example_flags \<longrightarrow>
             (\<forall>a \<in> set [1, 2]. Reference_referent example_keep_alive_heap a \<noteq> None
                \<and> Reference_next example_keep_alive_heap a = None)"
    by (simp add: example_keep_alive_heap_def)
  have g: "foldl (\<lambda>g a. fst (keep_alive example_closures g
                    (Reference_referent example_keep_alive_heap a)))
             (gc example_keep_alive_heap) [1, 2] = {100, 200}"
    by (auto simp: example_keep_alive_heap_def example_closures_def mark_def)
  have p: "reference_pending_list example_keep_alive_heap = Some 9"
    by (simp add: example_keep_alive_heap_def)
  show ?thesis
    using final_keep_alive_handles_every_entry[OF 1 2 3, of example_closures]
    unfolding g p by auto
qed

section \<open>Processing does not consult the clearing policy\<close>


















section \<open>Processing keeps the clock it has set\<close>






















section \<open>A cycle of the example machine, evaluated\<close>







section \<open>Properties of the clock within a cycle\<close>




end
